theory Spec2Isabelle
  imports Main
begin

section \<open>Tokens and the tokenizer\<close>

text \<open>
  Modelled from the spec: the Token class (token.ts is not part of the sources).
  Section 3 of the specification gives a token as a kind with a start and an end
  offset and links to its neighbours, the kinds as a flat enumeration, and two
  derived categories: \<open>boundary\<close>, satisfied by the semicolon, the property boundary,
  the braces and the parentheses, and the property-boundary class, satisfied by the
  tokens that end a declaration (semicolon and closing brace).  The parser asks a
  token for a kind or a category with \<open>token.is(type)\<close>.
\<close>

datatype TokenType =
    whitespace | comment | word | at
  | openBrace | closeBrace | openParenthesis | closeParenthesis
  | colon | semicolon | propertyBoundary | boundary

record Range =
  start :: nat
  endp :: nat

record Token = Range +
  type :: TokenType

definition token_is :: "Token \<Rightarrow> TokenType \<Rightarrow> bool" where
  "token_is t q \<longleftrightarrow>
     type t = q
     \<or> (q = boundary \<and>
          (type t = semicolon \<or> type t = propertyBoundary \<or> type t = openBrace \<or>
           type t = closeBrace \<or> type t = openParenthesis \<or> type t = closeParenthesis))
     \<or> (q = propertyBoundary \<and> (type t = semicolon \<or> type t = closeBrace))"

text \<open>
  Modelled from the spec: the Tokenizer class (tokenizer.ts is not part of the
  sources).  Section 4.1 allows eager tokenization and section 9 an index-based token
  array, which is what this model uses: the tokenizer is the source text with its token
  sequence, a token reference of the parser is an index into that sequence, and the
  cursor (the index of the current token) is the only state the parser changes.  Every
  parser function below takes the cursor and returns the new one.
\<close>

record Tokenizer =
  cssText :: string
  tokens :: "Token list"

definition tok :: "Tokenizer \<Rightarrow> nat \<Rightarrow> Token" where
  "tok tk i = tokens tk ! i"

text \<open>The current token is \<open>null\<close> (here \<open>None\<close>) at the end of the input.\<close>

definition currentToken :: "Tokenizer \<Rightarrow> nat \<Rightarrow> nat option" where
  "currentToken tk c = (if c < length (tokens tk) then Some c else None)"

text \<open>\<open>advance\<close> returns the token that was current, or \<open>null\<close> at the end.\<close>

definition advance :: "Tokenizer \<Rightarrow> nat \<Rightarrow> nat option \<times> nat" where
  "advance tk c = (if c < length (tokens tk) then (Some c, Suc c) else (None, c))"

definition previous :: "Tokenizer \<Rightarrow> nat \<Rightarrow> nat option" where
  "previous tk i = (if i = 0 then None else Some (i - 1))"

definition next_token :: "Tokenizer \<Rightarrow> nat \<Rightarrow> nat option" where
  "next_token tk i = (if Suc i < length (tokens tk) then Some (Suc i) else None)"

text \<open>
  \<open>getRange(startToken, endToken)\<close>: from the start of the first token to the end of
  the second, or the span of the first token alone when there is no second one.
\<close>

definition getRange :: "Tokenizer \<Rightarrow> nat \<Rightarrow> nat option \<Rightarrow> Range" where
  "getRange tk s e =
     \<lparr>start = start (tok tk s),
      endp = endp (tok tk (case e of None \<Rightarrow> s | Some e' \<Rightarrow> e'))\<rparr>"

text \<open>JavaScript's \<open>String.prototype.slice\<close> on offsets that are not negative.\<close>

definition String_slice :: "string \<Rightarrow> nat \<Rightarrow> nat \<Rightarrow> string" where
  "String_slice s a b = take (b - a) (drop a s)"

definition slice :: "Tokenizer \<Rightarrow> nat \<Rightarrow> nat option \<Rightarrow> string" where
  "slice tk s e =
     (let r = getRange tk s e in String_slice (cssText tk) (start r) (endp r))"

definition isWhitespace :: "char \<Rightarrow> bool" where
  "isWhitespace ch \<longleftrightarrow>
     ch = CHR '' '' \<or> ch = CHR 0x09 \<or> ch = CHR 0x0A \<or> ch = CHR 0x0B \<or>
     ch = CHR 0x0C \<or> ch = CHR 0x0D"

text \<open>
  \<open>trimRange\<close> narrows a range so that it neither starts nor ends with a whitespace
  character of the text.
\<close>

function trimStart :: "string \<Rightarrow> nat \<Rightarrow> nat \<Rightarrow> nat" where
  "trimStart s a b =
     (if a < b \<and> a < length s \<and> isWhitespace (s ! a) then trimStart s (Suc a) b else a)"
  by pat_completeness auto
termination
  by (relation "measure (\<lambda>(s, a, b). b - a)") auto

declare trimStart.simps [simp del]

function trimEnd :: "string \<Rightarrow> nat \<Rightarrow> nat \<Rightarrow> nat" where
  "trimEnd s a b =
     (if a < b \<and> b \<le> length s \<and> isWhitespace (s ! (b - 1)) then trimEnd s a (b - 1) else b)"
  by pat_completeness auto
termination
  by (relation "measure (\<lambda>(s, a, b). b)") auto

declare trimEnd.simps [simp del]

definition trimRange :: "Tokenizer \<Rightarrow> Range \<Rightarrow> Range" where
  "trimRange tk r =
     (let a = trimStart (cssText tk) (start r) (endp r);
          b = trimEnd (cssText tk) a (endp r)
      in \<lparr>start = a, endp = b\<rparr>)"

text \<open>
  The classification of section 4.1: a comment runs from \<open>/*\<close> through the next
  \<open>*/\<close> or to the end of the text; a maximal run of whitespace is one token; each of
  \<open>@ { } ( ) : ;\<close> is a token of its own; any other maximal run of characters is a
  word.
\<close>

fun commentLength :: "string \<Rightarrow> nat" where
  "commentLength [] = 0"
| "commentLength [x] = 1"
| "commentLength (x # y # zs) =
     (if x = CHR ''*'' \<and> y = CHR ''/'' then 2 else Suc (commentLength (y # zs)))"

definition boundaryTokenType :: "char \<Rightarrow> TokenType option" where
  "boundaryTokenType ch =
     (if ch = CHR ''@'' then Some at
      else if ch = CHR ''{'' then Some openBrace
      else if ch = CHR ''}'' then Some closeBrace
      else if ch = CHR ''('' then Some openParenthesis
      else if ch = CHR '')'' then Some closeParenthesis
      else if ch = CHR '':'' then Some colon
      else if ch = CHR '';'' then Some semicolon
      else None)"

definition isWordChar :: "char \<Rightarrow> bool" where
  "isWordChar ch \<longleftrightarrow> \<not> isWhitespace ch \<and> boundaryTokenType ch = None"

fun tokenize :: "nat \<Rightarrow> string \<Rightarrow> Token list" where
  "tokenize pos [] = []"
| "tokenize pos (ch # rest) =
     (if ch = CHR ''/'' \<and> take 1 rest = ''*'' then
        (let n = commentLength (drop 1 rest)
         in \<lparr>start = pos, endp = pos + 2 + n, type = comment\<rparr>
            # tokenize (pos + 2 + n) (drop (Suc n) rest))
      else if isWhitespace ch then
        (let n = length (takeWhile isWhitespace rest)
         in \<lparr>start = pos, endp = pos + 1 + n, type = whitespace\<rparr>
            # tokenize (pos + 1 + n) (drop n rest))
      else (case boundaryTokenType ch of
          Some ty \<Rightarrow> \<lparr>start = pos, endp = pos + 1, type = ty\<rparr> # tokenize (pos + 1) rest
        | None \<Rightarrow>
           (let n = length (takeWhile isWordChar rest)
            in \<lparr>start = pos, endp = pos + 1 + n, type = word\<rparr>
               # tokenize (pos + 1 + n) (drop n rest))))"

definition new_Tokenizer :: "string \<Rightarrow> Tokenizer" where
  "new_Tokenizer text = \<lparr>cssText = text, tokens = tokenize 0 text\<rparr>"

section \<open>The syntax tree\<close>

text \<open>
  Modelled from the spec: the node types of common.ts and the default NodeFactory
  (neither is part of the sources).  Section 3 lists the node variants with their
  fields; the default factory builds the node from the values the parser hands to it.
\<close>

datatype Rule =
    Comment string Range
  | AtRule string string "Rulelist option" Range "Range option" Range
  | Ruleset string Rulelist Range Range
  | Declaration string "DeclarationValue option" Range Range
  | Discarded string Range
and Rulelist = Rulelist "Rule list" Range
and DeclarationValue =
    Expression string Range
  | RulelistValue Rulelist

datatype Stylesheet = Stylesheet "Rule list" Range

section \<open>The parser (parser.ts)\<close>

text \<open>
  A call of the parser returns a value, throws (JavaScript's TypeError when a property
  of \<open>null\<close> or \<open>undefined\<close> is read), or, in the model only, runs out of the fuel that
  bounds the number of loop iterations.
\<close>

datatype error = TypeError

datatype 'a outcome = OutOfFuel | Throws error | Returns 'a

subsection \<open>parseComment and parseUnknown\<close>

definition parseComment :: "Tokenizer \<Rightarrow> nat \<Rightarrow> Rule option \<times> nat" where
  "parseComment tk c =
     (case advance tk c of
        (None, c1) \<Rightarrow> (None, c1)
      | (Some token, c1) \<Rightarrow>
          (Some (Comment (slice tk token None)
                   \<lparr>start = start (tok tk token), endp = endp (tok tk token)\<rparr>), c1))"

text \<open>The loop of parseUnknown: \<open>end\<close> is the last boundary token consumed.\<close>

function parseUnknown_loop :: "Tokenizer \<Rightarrow> nat \<Rightarrow> nat option \<Rightarrow> nat option \<times> nat" where
  "parseUnknown_loop tk c e =
     (case currentToken tk c of
        None \<Rightarrow> (e, c)
      | Some t \<Rightarrow>
          if token_is (tok tk t) boundary then parseUnknown_loop tk (Suc c) (Some t)
          else (e, c))"
  by pat_completeness auto
termination
  by (relation "measure (\<lambda>(tk, c, e). length (tokens tk) - c)")
     (auto simp: currentToken_def split: if_splits)

declare parseUnknown_loop.simps [simp del]

definition parseUnknown :: "Tokenizer \<Rightarrow> nat \<Rightarrow> Rule option \<times> nat" where
  "parseUnknown tk c =
     (case advance tk c of
        (None, c1) \<Rightarrow> (None, c1)
      | (Some s, c1) \<Rightarrow>
          (let (e, c2) = parseUnknown_loop tk c1 None
           in (Some (Discarded (slice tk s e) (getRange tk s e)), c2)))"

subsection \<open>The scan of parseDeclarationOrRuleset\<close>

text \<open>The inner loop that skips from an opening parenthesis to the next closing one.\<close>

function skipParenthesis :: "Tokenizer \<Rightarrow> nat \<Rightarrow> nat" where
  "skipParenthesis tk c =
     (case currentToken tk c of
        None \<Rightarrow> c
      | Some t \<Rightarrow>
          if \<not> token_is (tok tk t) closeParenthesis then skipParenthesis tk (Suc c)
          else c)"
  by pat_completeness auto
termination
  by (relation "measure (\<lambda>(tk, c). length (tokens tk) - c)")
     (auto simp: currentToken_def split: if_splits)

declare skipParenthesis.simps [simp del]

lemma skipParenthesis_ge: "c \<le> skipParenthesis tk c"
proof (induction tk c rule: skipParenthesis.induct)
  case (1 tk c)
  show ?case
  proof (cases "c < length (tokens tk) \<and> \<not> token_is (tok tk c) closeParenthesis")
    case True
    then have "skipParenthesis tk c = skipParenthesis tk (Suc c)"
      by (subst skipParenthesis.simps) (simp add: currentToken_def)
    moreover have "Suc c \<le> skipParenthesis tk (Suc c)"
      using True "1.IH" [of c] by (simp add: currentToken_def)
    ultimately show ?thesis by simp
  next
    case False
    then have "skipParenthesis tk c = c"
      by (subst skipParenthesis.simps) (auto simp: currentToken_def)
    then show ?thesis by simp
  qed
qed

lemma skipParenthesis_open:
  assumes "c < length (tokens tk)" and "token_is (tok tk c) openParenthesis"
  shows "c < skipParenthesis tk c"
proof -
  from assms(2) have "\<not> token_is (tok tk c) closeParenthesis"
    by (auto simp: token_is_def)
  with assms(1) have "skipParenthesis tk c = skipParenthesis tk (Suc c)"
    by (subst skipParenthesis.simps) (simp add: currentToken_def)
  with skipParenthesis_ge [of "Suc c" tk] show ?thesis by simp
qed

text \<open>
  The scan loop (lines 250 to 275): the accumulators are \<open>ruleStart\<close>, \<open>ruleEnd\<close> and
  \<open>colon\<close>; the result is the cursor where the loop stops, with the accumulators.
\<close>

function scan ::
  "Tokenizer \<Rightarrow> nat \<Rightarrow> nat option \<Rightarrow> nat option \<Rightarrow> nat option
   \<Rightarrow> nat \<times> nat option \<times> nat option \<times> nat option" where
  "scan tk c ruleStart ruleEnd col =
     (case currentToken tk c of
        None \<Rightarrow> (c, ruleStart, ruleEnd, col)
      | Some t \<Rightarrow>
          if token_is (tok tk t) whitespace then scan tk (Suc c) ruleStart ruleEnd col
          else if token_is (tok tk t) openParenthesis then
            scan tk (skipParenthesis tk c) ruleStart ruleEnd col
          else if token_is (tok tk t) openBrace \<or> token_is (tok tk t) propertyBoundary then
            (c, ruleStart, ruleEnd, col)
          else
            (let col' = (if token_is (tok tk t) colon then Some t else col)
             in if ruleStart = None then scan tk (Suc c) (Some t) (Some t) col'
                else scan tk (Suc c) ruleStart (Some t) col'))"
  by pat_completeness auto
termination
proof (relation "measure (\<lambda>(tk, c, rs, re, col). length (tokens tk) - c)", goal_cases)
  case 1
  show ?case by simp
next
  case (2 tk c ruleStart ruleEnd col t)
  then show ?case by (auto simp: currentToken_def split: if_splits)
next
  case (3 tk c ruleStart ruleEnd col t)
  then have "c < length (tokens tk)" and "t = c"
    by (auto simp: currentToken_def split: if_splits)
  with 3 have "c < skipParenthesis tk c"
    using skipParenthesis_open [of c tk] by simp
  with \<open>c < length (tokens tk)\<close> show ?case by simp
next
  case (4 tk c ruleStart ruleEnd col t)
  then show ?case by (auto simp: currentToken_def split: if_splits)
next
  case (5 tk c ruleStart ruleEnd col t)
  then show ?case by (auto simp: currentToken_def split: if_splits)
qed

declare scan.simps [simp del]

subsection \<open>The loop of parseAtRule\<close>

text \<open>The loop that consumes the word tokens of the name: \<open>end\<close> is the last one.\<close>

function parseAtRule_name :: "Tokenizer \<Rightarrow> nat \<Rightarrow> nat option \<Rightarrow> nat option \<times> nat" where
  "parseAtRule_name tk c e =
     (case currentToken tk c of
        None \<Rightarrow> (e, c)
      | Some t \<Rightarrow>
          if token_is (tok tk t) word then parseAtRule_name tk (Suc c) (Some t)
          else (e, c))"
  by pat_completeness auto
termination
  by (relation "measure (\<lambda>(tk, c, e). length (tokens tk) - c)")
     (auto simp: currentToken_def split: if_splits)

declare parseAtRule_name.simps [simp del]

lemma parseAtRule_name_ge: "c \<le> snd (parseAtRule_name tk c e)"
proof (induction tk c e rule: parseAtRule_name.induct)
  case (1 tk c e)
  show ?case
  proof (cases "c < length (tokens tk) \<and> token_is (tok tk c) word")
    case True
    then have "parseAtRule_name tk c e = parseAtRule_name tk (Suc c) (Some c)"
      by (subst parseAtRule_name.simps) (simp add: currentToken_def)
    moreover have "Suc c \<le> snd (parseAtRule_name tk (Suc c) (Some c))"
      using True "1.IH" [of c] by (simp add: currentToken_def)
    ultimately show ?thesis by simp
  next
    case False
    then have "parseAtRule_name tk c e = (e, c)"
      by (subst parseAtRule_name.simps) (auto simp: currentToken_def)
    then show ?thesis by simp
  qed
qed

text \<open>
  The main loop (lines 157 to 185).  The accumulators are \<open>name\<close>, \<open>nameRange\<close>,
  \<open>parametersStart\<close> and \<open>parametersEnd\<close>.  The loop is left at the end of the input,
  after a property boundary has been consumed, or at an opening brace; in the last case
  the flag of the result is set and parseAtRule parses the rule list, which is where
  the source calls parseRulelist before its \<open>break\<close>.  \<open>!name\<close>, here \<open>not_name\<close>,
  holds of \<open>undefined\<close> and of the empty string.  The name branch passes the token after the \<open>@\<close> to
  getRange, which reads its \<open>start\<close>: a TypeError when there is no such token.
\<close>

definition not_name :: "string option \<Rightarrow> bool" where
  "not_name name \<longleftrightarrow> name = None \<or> name = Some []"

function parseAtRule_loop ::
  "Tokenizer \<Rightarrow> nat \<Rightarrow> string option \<Rightarrow> Range option \<Rightarrow> nat option \<Rightarrow> nat option
   \<Rightarrow> (bool \<times> string option \<times> Range option \<times> nat option \<times> nat option \<times> nat) outcome" where
  "parseAtRule_loop tk c name nameRange parametersStart parametersEnd =
     (case currentToken tk c of
        None \<Rightarrow> Returns (False, name, nameRange, parametersStart, parametersEnd, c)
      | Some t \<Rightarrow>
          if token_is (tok tk t) whitespace then
            parseAtRule_loop tk (Suc c) name nameRange parametersStart parametersEnd
          else if not_name name \<and> token_is (tok tk t) at then
            (case currentToken tk (Suc c) of
               None \<Rightarrow> Throws TypeError
             | Some s \<Rightarrow>
                 (let (e, c2) = parseAtRule_name tk (Suc c) None;
                      nr = getRange tk s e
                  in parseAtRule_loop tk c2
                       (Some (String_slice (cssText tk) (start nr) (endp nr))) (Some nr)
                       parametersStart parametersEnd))
          else if token_is (tok tk t) openBrace then
            Returns (True, name, nameRange, parametersStart, parametersEnd, c)
          else if token_is (tok tk t) propertyBoundary then
            Returns (False, name, nameRange, parametersStart, parametersEnd, Suc c)
          else if parametersStart = None then
            parseAtRule_loop tk (Suc c) name nameRange (Some t) parametersEnd
          else
            parseAtRule_loop tk (Suc c) name nameRange parametersStart (Some t))"
  by pat_completeness auto
termination
proof (relation "measure (\<lambda>(tk, c, n, nr, ps, pe). length (tokens tk) - c)", goal_cases)
  case 1
  show ?case by simp
next
  case (2 tk c name nameRange parametersStart parametersEnd t)
  then show ?case by (auto simp: currentToken_def split: if_splits)
next
  case (3 tk c name nameRange parametersStart parametersEnd t s x e c2 nr)
  then have "c < length (tokens tk)"
    by (auto simp: currentToken_def split: if_splits)
  moreover have "Suc c \<le> c2"
    using parseAtRule_name_ge [of "Suc c" tk None] 3 by (metis snd_conv)
  ultimately show ?case by simp
next
  case (4 tk c name nameRange parametersStart parametersEnd t)
  then show ?case by (auto simp: currentToken_def split: if_splits)
next
  case (5 tk c name nameRange parametersStart parametersEnd t)
  then show ?case by (auto simp: currentToken_def split: if_splits)
qed

declare parseAtRule_loop.simps [simp del]

text \<open>Lines 187 to 202: the node that parseAtRule returns after its loop.\<close>

definition parseAtRule_node ::
  "Tokenizer \<Rightarrow> nat \<Rightarrow> string option \<Rightarrow> Range option \<Rightarrow> Rulelist option
   \<Rightarrow> nat option \<Rightarrow> nat option \<Rightarrow> nat \<Rightarrow> (Rule option \<times> nat) outcome" where
  "parseAtRule_node tk start0 name nameRange rulelist parametersStart parametersEnd c =
     (case name of
        None \<Rightarrow> Returns (None, c)
      | Some nm \<Rightarrow>
         (case nameRange of
            None \<Rightarrow> Returns (None, c)
          | Some nr \<Rightarrow>
             (let parametersRange =
                    (case parametersStart of
                       None \<Rightarrow> None
                     | Some p \<Rightarrow> Some (trimRange tk (getRange tk p parametersEnd)));
                  parameters =
                    (case parametersRange of
                       None \<Rightarrow> []
                     | Some r \<Rightarrow> String_slice (cssText tk) (start r) (endp r))
              in case currentToken tk c of
                   None \<Rightarrow>
                     Returns (Some (AtRule nm parameters rulelist nr parametersRange
                                \<lparr>start = start0, endp = length (cssText tk)\<rparr>), c)
                 | Some t \<Rightarrow>
                    (case previous tk t of
                       None \<Rightarrow> Throws TypeError
                     | Some p \<Rightarrow>
                         Returns (Some (AtRule nm parameters rulelist nr parametersRange
                                    \<lparr>start = start0, endp = endp (tok tk p)\<rparr>), c)))))"

subsection \<open>The three outcomes of parseDeclarationOrRuleset\<close>

text \<open>
  Lines 283 to 309, the declaration: \<open>c\<close> is the cursor at the property boundary where
  the scan stopped.  getRange reads \<open>ruleStart.start\<close>, a TypeError when \<open>ruleStart\<close>
  is \<open>null\<close>.
\<close>

definition declaration_node ::
  "Tokenizer \<Rightarrow> nat \<Rightarrow> nat option \<Rightarrow> nat option \<Rightarrow> nat option
   \<Rightarrow> (Rule option \<times> nat) outcome" where
  "declaration_node tk c ruleStart ruleEnd col =
     (case ruleStart of
        None \<Rightarrow> Throws TypeError
      | Some rs \<Rightarrow>
         (let nameRange =
                getRange tk rs (case col of Some k \<Rightarrow> previous tk k | None \<Rightarrow> ruleEnd);
              declarationName = String_slice (cssText tk) (start nameRange) (endp nameRange);
              expression =
                (case col of
                   None \<Rightarrow> None
                 | Some k \<Rightarrow>
                    (case next_token tk k of
                       None \<Rightarrow> None
                     | Some nx \<Rightarrow>
                        (let rawExpressionRange = getRange tk nx ruleEnd;
                             expressionRange = trimRange tk rawExpressionRange;
                             expressionValue =
                               String_slice (cssText tk)
                                 (start expressionRange) (endp expressionRange)
                         in Some (Expression expressionValue expressionRange))));
              c1 = (if token_is (tok tk c) semicolon then snd (advance tk c) else c);
              range =
                trimRange tk
                  (getRange tk rs
                     (case currentToken tk c1 of
                        None \<Rightarrow> ruleEnd
                      | Some t \<Rightarrow>
                         (case previous tk t of None \<Rightarrow> ruleEnd | Some p \<Rightarrow> Some p)))
          in Returns (Some (Declaration declarationName expression nameRange range), c1)))"

text \<open>
  Lines 314 to 328, the mixin declaration after its rule list has been parsed: \<open>c\<close> is
  the cursor after the rule list.  Line 314 reads \<open>tokenizer.currentToken.is\<close>, a
  TypeError when the current token is \<open>null\<close>.
\<close>

definition mixin_node ::
  "Tokenizer \<Rightarrow> nat \<Rightarrow> Rulelist \<Rightarrow> nat option \<Rightarrow> nat \<Rightarrow> (Rule option \<times> nat) outcome" where
  "mixin_node tk c rulelist ruleStart ruleEnd =
     (case currentToken tk c of
        None \<Rightarrow> Throws TypeError
      | Some t \<Rightarrow>
         (let c1 = (if token_is (tok tk t) semicolon then snd (advance tk c) else c)
          in case ruleStart of
               None \<Rightarrow> Throws TypeError
             | Some rs \<Rightarrow>
                (let nameRange = getRange tk rs (previous tk ruleEnd);
                     declarationName =
                       String_slice (cssText tk) (start nameRange) (endp nameRange);
                     range =
                       trimRange tk
                         (getRange tk rs
                            (case currentToken tk c1 of
                               None \<Rightarrow> Some ruleEnd
                             | Some t1 \<Rightarrow>
                                (case previous tk t1 of
                                   None \<Rightarrow> Some ruleEnd
                                 | Some p \<Rightarrow> Some p)))
                 in Returns (Some (Declaration declarationName
                                     (Some (RulelistValue rulelist)) nameRange range), c1))))"

text \<open>
  Lines 335 to 347, the ruleset after its rule list has been parsed; the selector and
  its range (lines 331 to 333) are computed before the rule list is parsed.
\<close>

definition ruleset_node ::
  "Tokenizer \<Rightarrow> nat \<Rightarrow> string \<Rightarrow> Range \<Rightarrow> Rulelist \<Rightarrow> nat \<Rightarrow> Rule option \<times> nat" where
  "ruleset_node tk c selector selectorRange rulelist rs =
     (let start0 = start (tok tk rs);
          end0 =
            (case currentToken tk c of
               Some t \<Rightarrow>
                 (case previous tk t of
                    Some p \<Rightarrow> endp (tok tk p)
                  | None \<Rightarrow> endp (tok tk rs))
             | None \<Rightarrow> length (cssText tk))
      in (Some (Ruleset selector rulelist selectorRange \<lparr>start = start0, endp = end0\<rparr>), c))"

subsection \<open>The recursive descent\<close>

text \<open>
  parseRule, parseAtRule, parseRulelist and parseDeclarationOrRuleset call each other.
  The first argument is the fuel: the loop of parseRulelist spends one unit for each
  rule it parses, and a call that needs a unit when none is left is \<open>OutOfFuel\<close>.
  parseRulelist reads \<open>tokenizer.currentToken!.start\<close>, a TypeError at the end of the
  input.
\<close>

function parseRule :: "nat \<Rightarrow> Tokenizer \<Rightarrow> nat \<Rightarrow> (Rule option \<times> nat) outcome"
  and parseAtRule :: "nat \<Rightarrow> Tokenizer \<Rightarrow> nat \<Rightarrow> (Rule option \<times> nat) outcome"
  and parseRulelist :: "nat \<Rightarrow> Tokenizer \<Rightarrow> nat \<Rightarrow> (Rulelist \<times> nat) outcome"
  and parseRulelist_loop ::
    "nat \<Rightarrow> Tokenizer \<Rightarrow> nat \<Rightarrow> Rule list \<Rightarrow> (Rule list \<times> nat option \<times> nat) outcome"
  and parseDeclarationOrRuleset ::
    "nat \<Rightarrow> Tokenizer \<Rightarrow> nat \<Rightarrow> (Rule option \<times> nat) outcome"
where
  "parseRule n tk c =
     (case currentToken tk c of
        None \<Rightarrow> Returns (None, c)
      | Some token \<Rightarrow>
          if token_is (tok tk token) whitespace then Returns (None, snd (advance tk c))
          else if token_is (tok tk token) comment then Returns (parseComment tk c)
          else if token_is (tok tk token) word then parseDeclarationOrRuleset n tk c
          else if token_is (tok tk token) propertyBoundary then Returns (parseUnknown tk c)
          else if token_is (tok tk token) at then parseAtRule n tk c
          else Returns (parseUnknown tk c))"
| "parseAtRule n tk c =
     (case currentToken tk c of
        None \<Rightarrow> Returns (None, c)
      | Some t \<Rightarrow>
         (case parseAtRule_loop tk c None None None None of
            OutOfFuel \<Rightarrow> OutOfFuel
          | Throws e \<Rightarrow> Throws e
          | Returns (brace, name, nameRange, parametersStart, parametersEnd, c1) \<Rightarrow>
              if brace then
                (case parseRulelist n tk c1 of
                   OutOfFuel \<Rightarrow> OutOfFuel
                 | Throws e \<Rightarrow> Throws e
                 | Returns (rulelist, c2) \<Rightarrow>
                     parseAtRule_node tk (start (tok tk t)) name nameRange (Some rulelist)
                       parametersStart parametersEnd c2)
              else
                parseAtRule_node tk (start (tok tk t)) name nameRange None
                  parametersStart parametersEnd c1))"
| "parseRulelist n tk c =
     (case currentToken tk c of
        None \<Rightarrow> Throws TypeError
      | Some t \<Rightarrow>
         (case parseRulelist_loop n tk (snd (advance tk c)) [] of
            OutOfFuel \<Rightarrow> OutOfFuel
          | Throws e \<Rightarrow> Throws e
          | Returns (rules, endToken, c1) \<Rightarrow>
              Returns (Rulelist rules
                         \<lparr>start = start (tok tk t),
                          endp = (case endToken of
                                    Some e \<Rightarrow> endp (tok tk e)
                                  | None \<Rightarrow> length (cssText tk))\<rparr>, c1)))"
| "parseRulelist_loop n tk c rules =
     (case currentToken tk c of
        None \<Rightarrow> Returns (rules, None, c)
      | Some t \<Rightarrow>
          if token_is (tok tk t) closeBrace then Returns (rules, Some t, snd (advance tk c))
          else
            (case n of
               0 \<Rightarrow> OutOfFuel
             | Suc m \<Rightarrow>
                (case parseRule m tk c of
                   OutOfFuel \<Rightarrow> OutOfFuel
                 | Throws e \<Rightarrow> Throws e
                 | Returns (rule, c1) \<Rightarrow>
                     parseRulelist_loop m tk c1
                       (case rule of None \<Rightarrow> rules | Some r \<Rightarrow> rules @ [r]))))"
| "parseDeclarationOrRuleset n tk c =
     (case scan tk c None None None of
        (c1, ruleStart, ruleEnd, col) \<Rightarrow>
         (case currentToken tk c1 of
            None \<Rightarrow> Returns (None, c1)
          | Some t \<Rightarrow>
              if token_is (tok tk t) propertyBoundary then
                declaration_node tk c1 ruleStart ruleEnd col
              else if col \<noteq> None \<and> col = ruleEnd then
                (case parseRulelist n tk c1 of
                   OutOfFuel \<Rightarrow> OutOfFuel
                 | Throws e \<Rightarrow> Throws e
                 | Returns (rulelist, c2) \<Rightarrow> mixin_node tk c2 rulelist ruleStart (the ruleEnd))
              else
                (case ruleStart of
                   None \<Rightarrow> Throws TypeError
                 | Some rs \<Rightarrow>
                    (let selectorRange = getRange tk rs ruleEnd;
                         selector =
                           String_slice (cssText tk) (start selectorRange) (endp selectorRange)
                     in case parseRulelist n tk c1 of
                          OutOfFuel \<Rightarrow> OutOfFuel
                        | Throws e \<Rightarrow> Throws e
                        | Returns (rulelist, c2) \<Rightarrow>
                            Returns (ruleset_node tk c2 selector selectorRange rulelist rs)))))"
  by pat_completeness auto
termination
  by (relation "measure (\<lambda>x. case x of
        Inl (Inl (n, tk, c)) \<Rightarrow> 5 * n + 4
      | Inl (Inr (n, tk, c)) \<Rightarrow> 5 * n + 3
      | Inr (Inl (n, tk, c)) \<Rightarrow> 5 * n + 2
      | Inr (Inr (Inl (n, tk, c, rules))) \<Rightarrow> 5 * n + 1
      | Inr (Inr (Inr (n, tk, c))) \<Rightarrow> 5 * n + 3)") auto

declare parseRule.simps [simp del] parseAtRule.simps [simp del] parseRulelist.simps [simp del]
  parseRulelist_loop.simps [simp del] parseDeclarationOrRuleset.simps [simp del]

text \<open>The loop of parseRules (lines 58 to 70), one unit of fuel for each rule.\<close>

fun parseRules :: "nat \<Rightarrow> Tokenizer \<Rightarrow> nat \<Rightarrow> Rule list \<Rightarrow> (Rule list \<times> nat) outcome" where
  "parseRules n tk c rules =
     (case currentToken tk c of
        None \<Rightarrow> Returns (rules, c)
      | Some t \<Rightarrow>
         (case n of
            0 \<Rightarrow> OutOfFuel
          | Suc m \<Rightarrow>
             (case parseRule m tk c of
                OutOfFuel \<Rightarrow> OutOfFuel
              | Throws e \<Rightarrow> Throws e
              | Returns (rule, c1) \<Rightarrow>
                  parseRules m tk c1 (case rule of None \<Rightarrow> rules | Some r \<Rightarrow> rules @ [r]))))"

declare parseRules.simps [simp del]

definition parseStylesheet :: "nat \<Rightarrow> Tokenizer \<Rightarrow> Stylesheet outcome" where
  "parseStylesheet n tk =
     (case parseRules n tk 0 [] of
        OutOfFuel \<Rightarrow> OutOfFuel
      | Throws e \<Rightarrow> Throws e
      | Returns (rules, c) \<Rightarrow>
          Returns (Stylesheet rules \<lparr>start = 0, endp = length (cssText tk)\<rparr>))"

text \<open>
  \<open>parse\<close> builds the tokenizer and parses the style sheet.  The fuel it hands over is
  the number of tokens, which is enough for every input (theorem
  \<open>parse_terminates\<close> below).
\<close>

definition parse :: "string \<Rightarrow> Stylesheet outcome" where
  "parse text =
     (let tokenizer = new_Tokenizer text
      in parseStylesheet (length (tokens tokenizer)) tokenizer)"

section \<open>Notions used in the statements\<close>

text \<open>
  The accumulators of the scan at cursor \<open>c\<close>: once a rule start is recorded, the rule
  end is a token between it and the cursor, and a recorded colon lies between the two.
\<close>

definition scan_inv :: "nat \<Rightarrow> nat option \<Rightarrow> nat option \<Rightarrow> nat option \<Rightarrow> bool" where
  "scan_inv c ruleStart ruleEnd col \<longleftrightarrow>
     (case ruleStart of
        None \<Rightarrow> ruleEnd = None \<and> col = None
      | Some s \<Rightarrow>
         (case ruleEnd of
            None \<Rightarrow> False
          | Some e \<Rightarrow> s \<le> e \<and> e < c \<and>
              (case col of None \<Rightarrow> True | Some k \<Rightarrow> s \<le> k \<and> k \<le> e)))"

text \<open>
  The specification speaks of the colon tokens that the scan sees outside parentheses.
  \<open>scannedTokens\<close> lists, in the order of the text, the tokens that the scan passes
  outside parentheses before it stops, whitespace left out: a token between an opening
  parenthesis and the next closing one is skipped, the closing one is not.
  \<open>scannedColons\<close> keeps the colon tokens of that list.
\<close>

function scannedTokens :: "Tokenizer \<Rightarrow> nat \<Rightarrow> nat list" where
  "scannedTokens tk c =
     (case currentToken tk c of
        None \<Rightarrow> []
      | Some t \<Rightarrow>
          if token_is (tok tk t) whitespace then scannedTokens tk (Suc c)
          else if token_is (tok tk t) openParenthesis then
            scannedTokens tk (skipParenthesis tk c)
          else if token_is (tok tk t) openBrace \<or> token_is (tok tk t) propertyBoundary then []
          else t # scannedTokens tk (Suc c))"
  by pat_completeness auto
termination
proof (relation "measure (\<lambda>(tk, c). length (tokens tk) - c)", goal_cases)
  case 1
  show ?case by simp
next
  case (2 tk c t)
  then show ?case by (auto simp: currentToken_def split: if_splits)
next
  case (3 tk c t)
  then have "c < length (tokens tk)" and "t = c"
    by (auto simp: currentToken_def split: if_splits)
  with 3 have "c < skipParenthesis tk c"
    using skipParenthesis_open [of c tk] by simp
  with \<open>c < length (tokens tk)\<close> show ?case by simp
next
  case (4 tk c t)
  then show ?case by (auto simp: currentToken_def split: if_splits)
qed

declare scannedTokens.simps [simp del]

definition isColon :: "Tokenizer \<Rightarrow> nat \<Rightarrow> bool" where
  "isColon tk i \<longleftrightarrow> token_is (tok tk i) colon"

definition scannedColons :: "Tokenizer \<Rightarrow> nat \<Rightarrow> nat list" where
  "scannedColons tk c = filter (isColon tk) (scannedTokens tk c)"

definition recordedColon :: "Tokenizer \<Rightarrow> nat \<Rightarrow> nat option" where
  "recordedColon tk c = snd (snd (snd (scan tk c None None None)))"

text \<open>The top-level rules of the style sheet that a call of \<open>parse\<close> returns.\<close>

definition rulesOf :: "Stylesheet outcome \<Rightarrow> Rule list" where
  "rulesOf res = (case res of Returns (Stylesheet rules r) \<Rightarrow> rules | _ \<Rightarrow> [])"

text \<open>The text \<open>@import "x.css";\<close> of the specification's example, and its parameters.\<close>

definition import_example :: string where
  "import_example = ''@import '' @ [CHR 0x22] @ ''x.css'' @ [CHR 0x22] @ '';''"

definition import_parameters :: string where
  "import_parameters = [CHR 0x22] @ ''x.css'' @ [CHR 0x22]"

text \<open>The text of an \<open>@\<close> that is followed by an empty block.\<close>

definition at_braces :: string where
  "at_braces = CHR ''@'' # ''{}''"

text \<open>
  The rule list repeatedly parses rules.  \<open>ruleChain n tk c steps\<close> says that \<open>steps\<close>
  are the results of consecutive calls of parseRule, the first at cursor \<open>c\<close> and each
  next one at the cursor the call before it returned, none of them at a closing brace;
  \<open>chainEnd\<close> is the cursor after the last call, and \<open>chainRules\<close> are the nodes
  that the calls returned, in their order, the \<open>null\<close> results left out.
\<close>

fun ruleChain :: "nat \<Rightarrow> Tokenizer \<Rightarrow> nat \<Rightarrow> (Rule option \<times> nat) list \<Rightarrow> bool" where
  "ruleChain n tk c [] = True"
| "ruleChain n tk c ((r, c') # steps) =
     (c < length (tokens tk) \<and> \<not> token_is (tok tk c) closeBrace
      \<and> parseRule n tk c = Returns (r, c') \<and> ruleChain n tk c' steps)"

definition chainEnd :: "nat \<Rightarrow> (Rule option \<times> nat) list \<Rightarrow> nat" where
  "chainEnd c steps = last (c # map snd steps)"

fun chainRules :: "(Rule option \<times> nat) list \<Rightarrow> Rule list" where
  "chainRules [] = []"
| "chainRules ((None, c) # steps) = chainRules steps"
| "chainRules ((Some r, c) # steps) = r # chainRules steps"

text \<open>
  The parameter tokens of an at-rule: the tokens from cursor \<open>c\<close> up to the first
  opening brace or token of the property-boundary class, whitespace left out.
\<close>

function parameterTokens :: "Tokenizer \<Rightarrow> nat \<Rightarrow> nat list" where
  "parameterTokens tk c =
     (case currentToken tk c of
        None \<Rightarrow> []
      | Some t \<Rightarrow>
          if token_is (tok tk t) whitespace then parameterTokens tk (Suc c)
          else if token_is (tok tk t) openBrace \<or> token_is (tok tk t) propertyBoundary then []
          else t # parameterTokens tk (Suc c))"
  by pat_completeness auto
termination
  by (relation "measure (\<lambda>(tk, c). length (tokens tk) - c)")
     (auto simp: currentToken_def split: if_splits)

declare parameterTokens.simps [simp del]

section \<open>Basic facts\<close>

lemma currentToken_Some [simp]: "c < length (tokens tk) \<Longrightarrow> currentToken tk c = Some c"
  by (simp add: currentToken_def)

lemma currentToken_None [simp]: "length (tokens tk) \<le> c \<Longrightarrow> currentToken tk c = None"
  by (simp add: currentToken_def)

lemma advance_Some [simp]: "c < length (tokens tk) \<Longrightarrow> advance tk c = (Some c, Suc c)"
  by (simp add: advance_def)

lemma advance_None [simp]: "length (tokens tk) \<le> c \<Longrightarrow> advance tk c = (None, c)"
  by (simp add: advance_def)

text \<open>A word token belongs to no other kind or category.\<close>

lemma word_token_is:
  assumes "token_is t word"
  shows "\<not> token_is t whitespace" "\<not> token_is t openParenthesis" "\<not> token_is t openBrace"
    "\<not> token_is t propertyBoundary" "\<not> token_is t colon" "\<not> token_is t at"
    "\<not> token_is t comment"
  using assms by (auto simp: token_is_def)

lemma propertyBoundary_token_is:
  assumes "token_is t propertyBoundary"
  shows "\<not> token_is t whitespace" "\<not> token_is t openParenthesis" "\<not> token_is t openBrace"
    "\<not> token_is t at" "\<not> token_is t word" "\<not> token_is t comment"
  using assms by (auto simp: token_is_def)

section \<open>Properties of the scan of parseDeclarationOrRuleset\<close>

lemma scan_inv_step:
  "scan_inv c rs re col \<Longrightarrow> c \<le> c' \<Longrightarrow> scan_inv c' rs re col"
  by (auto simp: scan_inv_def split: option.splits)

lemma scan_inv_take:
  "scan_inv c rs re col \<Longrightarrow>
   scan_inv (Suc c) (if rs = None then Some c else rs) (Some c) (if b then Some c else col)"
  by (auto simp: scan_inv_def split: option.splits)

lemma scan_invariant:
  "scan_inv c rs re col \<Longrightarrow> scan tk c rs re col = (c1, rs1, re1, col1) \<Longrightarrow>
   scan_inv c1 rs1 re1 col1 \<and> c \<le> c1 \<and> (rs \<noteq> None \<longrightarrow> rs1 = rs)"
proof (induction tk c rs re col rule: scan.induct)
  case (1 tk c ruleStart ruleEnd col)
  show ?case
  proof (cases "c < length (tokens tk)")
    case False
    with "1.prems" show ?thesis
      by (subst (asm) scan.simps) (simp add: currentToken_def)
  next
    case inb: True
    then have cur: "currentToken tk c = Some c" by simp
    consider (ws) "token_is (tok tk c) whitespace"
      | (paren) "\<not> token_is (tok tk c) whitespace" "token_is (tok tk c) openParenthesis"
      | (stop) "\<not> token_is (tok tk c) whitespace" "\<not> token_is (tok tk c) openParenthesis"
          "token_is (tok tk c) openBrace \<or> token_is (tok tk c) propertyBoundary"
      | (take) "\<not> token_is (tok tk c) whitespace" "\<not> token_is (tok tk c) openParenthesis"
          "\<not> (token_is (tok tk c) openBrace \<or> token_is (tok tk c) propertyBoundary)"
      by blast
    then show ?thesis
    proof cases
      case ws
      with inb "1.prems"(2) have "scan tk (Suc c) ruleStart ruleEnd col = (c1, rs1, re1, col1)"
        by (subst (asm) scan.simps) simp
      moreover have "scan_inv (Suc c) ruleStart ruleEnd col"
        using "1.prems"(1) scan_inv_step by simp
      ultimately show ?thesis
        using "1.IH"(1) [OF cur ws] by fastforce
    next
      case paren
      with inb "1.prems"(2)
      have "scan tk (skipParenthesis tk c) ruleStart ruleEnd col = (c1, rs1, re1, col1)"
        by (subst (asm) scan.simps) simp
      moreover have "scan_inv (skipParenthesis tk c) ruleStart ruleEnd col"
        using "1.prems"(1) scan_inv_step skipParenthesis_ge by simp
      ultimately show ?thesis
        using "1.IH"(2) [OF cur paren] skipParenthesis_ge [of c tk] by fastforce
    next
      case stop
      with inb "1.prems" show ?thesis
        by (subst (asm) scan.simps) auto
    next
      case take
      define col' where "col' = (if token_is (tok tk c) colon then Some c else col)"
      show ?thesis
      proof (cases "ruleStart = None")
        case True
        with take inb "1.prems"(2) have "scan tk (Suc c) (Some c) (Some c) col' = (c1, rs1, re1, col1)"
          by (subst (asm) scan.simps) (simp add: col'_def Let_def)
        moreover have "scan_inv (Suc c) (Some c) (Some c) col'"
          using scan_inv_take [OF "1.prems"(1), of "token_is (tok tk c) colon"] True
          by (simp add: col'_def)
        ultimately show ?thesis
          using "1.IH"(3) [OF cur take(1) take(2) take(3) col'_def True] True by fastforce
      next
        case False
        with take inb "1.prems"(2) have "scan tk (Suc c) ruleStart (Some c) col' = (c1, rs1, re1, col1)"
          by (subst (asm) scan.simps) (simp add: col'_def Let_def)
        moreover have "scan_inv (Suc c) ruleStart (Some c) col'"
          using scan_inv_take [OF "1.prems"(1), of "token_is (tok tk c) colon"] False
          by (simp add: col'_def)
        ultimately show ?thesis
          using "1.IH"(4) [OF cur take(1) take(2) take(3) col'_def False] False by fastforce
      qed
    qed
  qed
qed

section \<open>Entering the scan at a word token, and leaving it at the end of the input\<close>

lemma scan_word_first:
  assumes "c < length (tokens tk)" and "token_is (tok tk c) word"
  shows "scan tk c None None None = scan tk (Suc c) (Some c) (Some c) None"
  using assms word_token_is [OF assms(2)]
  by (subst scan.simps) (simp add: Let_def)



text \<open>
  C6: when the scan reaches the end of the input, parseDeclarationOrRuleset returns
  \<open>null\<close>: no node is built, whatever the scan has accumulated, and the cursor stays
  at the end.
\<close>

theorem parseDeclarationOrRuleset_end_of_input:
  assumes "length (tokens tk) \<le> fst (scan tk c None None None)"
  shows "parseDeclarationOrRuleset n tk c = Returns (None, fst (scan tk c None None None))"
proof -
  obtain c1 rs re col where res: "scan tk c None None None = (c1, rs, re, col)"
    by (metis prod_cases4)
  with assms have "length (tokens tk) \<le> c1" by simp
  then have "currentToken tk c1 = None" by simp
  with res show ?thesis
    by (subst parseDeclarationOrRuleset.simps) simp
qed

theorem parseDeclarationOrRuleset_end_of_input_witness:
  "length (tokens (new_Tokenizer ''a:b'')) \<le> fst (scan (new_Tokenizer ''a:b'') 0 None None None)
   \<and> parseDeclarationOrRuleset 5 (new_Tokenizer ''a:b'') 0 = Returns (None, 3)"
proof -
  have s: "scan (new_Tokenizer ''a:b'') 0 None None None = (3, Some 0, Some 2, Some 1)"
    by code_simp
  have l: "length (tokens (new_Tokenizer ''a:b'')) = 3"
    by code_simp
  show ?thesis
    using parseDeclarationOrRuleset_end_of_input [of "new_Tokenizer ''a:b''" 0 5] s l by simp
qed

section \<open>Which colon the scan records\<close>

lemma scan_colon_last:
  "scan tk c rs re col = (c1, rs1, re1, col1) \<Longrightarrow>
   col1 = (if scannedColons tk c = [] then col else Some (last (scannedColons tk c)))"
proof (induction tk c rs re col rule: scan.induct)
  case (1 tk c ruleStart ruleEnd col)
  show ?case
  proof (cases "c < length (tokens tk)")
    case False
    then have "scannedTokens tk c = []"
      by (subst scannedTokens.simps) (simp add: currentToken_def)
    moreover from False "1.prems" have "col1 = col"
      by (subst (asm) scan.simps) (simp add: currentToken_def)
    ultimately show ?thesis by (simp add: scannedColons_def)
  next
    case inb: True
    then have cur: "currentToken tk c = Some c" by simp
    consider (ws) "token_is (tok tk c) whitespace"
      | (paren) "\<not> token_is (tok tk c) whitespace" "token_is (tok tk c) openParenthesis"
      | (stop) "\<not> token_is (tok tk c) whitespace" "\<not> token_is (tok tk c) openParenthesis"
          "token_is (tok tk c) openBrace \<or> token_is (tok tk c) propertyBoundary"
      | (take) "\<not> token_is (tok tk c) whitespace" "\<not> token_is (tok tk c) openParenthesis"
          "\<not> (token_is (tok tk c) openBrace \<or> token_is (tok tk c) propertyBoundary)"
      by blast
    then show ?thesis
    proof cases
      case ws
      with inb "1.prems" have "scan tk (Suc c) ruleStart ruleEnd col = (c1, rs1, re1, col1)"
        by (subst (asm) scan.simps) simp
      moreover from ws inb have "scannedTokens tk c = scannedTokens tk (Suc c)"
        by (subst scannedTokens.simps) simp
      ultimately show ?thesis
        using "1.IH"(1) [OF cur ws] by (simp add: scannedColons_def)
    next
      case paren
      with inb "1.prems"
      have "scan tk (skipParenthesis tk c) ruleStart ruleEnd col = (c1, rs1, re1, col1)"
        by (subst (asm) scan.simps) simp
      moreover from paren inb
      have "scannedTokens tk c = scannedTokens tk (skipParenthesis tk c)"
        by (subst scannedTokens.simps) simp
      ultimately show ?thesis
        using "1.IH"(2) [OF cur paren] by (simp add: scannedColons_def)
    next
      case stop
      with inb have "scannedTokens tk c = []"
        by (subst scannedTokens.simps) auto
      moreover from stop inb "1.prems" have "col1 = col"
        by (subst (asm) scan.simps) auto
      ultimately show ?thesis by (simp add: scannedColons_def)
    next
      case take
      define col' where "col' = (if token_is (tok tk c) colon then Some c else col)"
      from take inb have toks: "scannedTokens tk c = c # scannedTokens tk (Suc c)"
        by (subst scannedTokens.simps) simp
      show ?thesis
      proof (cases "ruleStart = None")
        case True
        with take inb "1.prems" have "scan tk (Suc c) (Some c) (Some c) col' = (c1, rs1, re1, col1)"
          by (subst (asm) scan.simps) (simp add: col'_def Let_def)
        from "1.IH"(3) [OF cur take(1) take(2) take(3) col'_def True this] toks
        show ?thesis
          by (simp add: scannedColons_def isColon_def col'_def)
      next
        case False
        with take inb "1.prems" have "scan tk (Suc c) ruleStart (Some c) col' = (c1, rs1, re1, col1)"
          by (subst (asm) scan.simps) (simp add: col'_def Let_def)
        from "1.IH"(4) [OF cur take(1) take(2) take(3) col'_def False this] toks
        show ?thesis
          by (simp add: scannedColons_def isColon_def col'_def)
      qed
    qed
  qed
qed

text \<open>
  C3, as the code has it: the scan overwrites \<open>colon\<close> at every colon token it passes
  outside parentheses (line 265), so the colon it records is the last of them, and none
  when there is none.
\<close>

theorem scan_records_last_colon:
  "recordedColon tk c =
     (if scannedColons tk c = [] then None else Some (last (scannedColons tk c)))"
proof -
  obtain c1 rs1 re1 col1 where res: "scan tk c None None None = (c1, rs1, re1, col1)"
    by (metis prod_cases4)
  from scan_colon_last [OF res] res show ?thesis
    by (simp add: recordedColon_def)
qed

text \<open>
  C3, as the specification has it, fails: in \<open>a:b:c;\<close> the colons outside parentheses
  are the tokens 1 and 3, the scan records token 3, and the declaration is split there,
  into the name \<open>a:b\<close> and the value \<open>c\<close>.
\<close>

theorem scan_first_colon_counterexample:
  "1 < length (scannedColons (new_Tokenizer ''a:b:c;'') 0)
   \<and> recordedColon (new_Tokenizer ''a:b:c;'') 0
       \<noteq> Some (hd (scannedColons (new_Tokenizer ''a:b:c;'') 0))
   \<and> parse ''a:b:c;'' =
       Returns (Stylesheet
         [Declaration ''a:b'' (Some (Expression ''c'' \<lparr>start = 4, endp = 5\<rparr>))
            \<lparr>start = 0, endp = 3\<rparr> \<lparr>start = 0, endp = 5\<rparr>]
         \<lparr>start = 0, endp = 6\<rparr>)"
  by code_simp

theorem scan_records_last_colon_witness:
  "recordedColon (new_Tokenizer ''a:b:c;'') 0 = Some 3"
proof -
  have "scannedColons (new_Tokenizer ''a:b:c;'') 0 = [1, 3]"
    by code_simp
  with scan_records_last_colon [of "new_Tokenizer ''a:b:c;''" 0] show ?thesis
    by simp
qed

section \<open>Recovery from a stray closing brace\<close>

text \<open>
  C2, as the code has it: for \<open>} weird ; .a{}\<close> the top-level rules are a Discarded
  node for the stray brace alone (the token after it is whitespace, so the run of
  boundary tokens that follows is empty), a Declaration named \<open>weird\<close> without a
  value, which ends with the semicolon, and the Ruleset for \<open>.a{}\<close>.
\<close>

theorem parse_stray_closeBrace:
  "parse ''} weird ; .a{}'' =
     Returns (Stylesheet
       [Discarded ''}'' \<lparr>start = 0, endp = 1\<rparr>,
        Declaration ''weird'' None \<lparr>start = 2, endp = 7\<rparr> \<lparr>start = 2, endp = 9\<rparr>,
        Ruleset ''.a'' (Rulelist [] \<lparr>start = 12, endp = 14\<rparr>)
          \<lparr>start = 10, endp = 12\<rparr> \<lparr>start = 10, endp = 14\<rparr>]
       \<lparr>start = 0, endp = 14\<rparr>)"
  by code_simp

text \<open>
  C2, as the specification has it, fails: the sequence does not consist of two nodes;
  between the Discarded node and the Ruleset stands the Declaration for \<open>weird ;\<close>.
\<close>

theorem parse_stray_closeBrace_counterexample:
  "length (rulesOf (parse ''} weird ; .a{}'')) \<noteq> 2
   \<and> rulesOf (parse ''} weird ; .a{}'') ! 1 =
       Declaration ''weird'' None \<lparr>start = 2, endp = 7\<rparr> \<lparr>start = 2, endp = 9\<rparr>"
  by code_simp

section \<open>A mixin declaration at the end of the input\<close>

text \<open>
  C1 fails on the code: for \<open>a:{\<close> the scan stops at the brace with the colon as its
  last token, parseRulelist consumes the brace and reaches the end of the input, and
  line 314 reads \<open>tokenizer.currentToken.is\<close> while the current token is \<open>null\<close>.
  The same branch guards the current token two statements later (line 324), and so
  does the ruleset branch (line 337).
\<close>

theorem parse_throws_after_mixin_rulelist:
  "parse ''a:{'' = Throws TypeError"
  by code_simp

text \<open>Whenever parse returns, the range of the style sheet is the whole text.\<close>

lemma parse_range:
  "parse css = Returns (Stylesheet rules r) \<Longrightarrow> r = \<lparr>start = 0, endp = length css\<rparr>"
  by (auto simp: parse_def parseStylesheet_def new_Tokenizer_def Let_def split: outcome.splits)

text \<open>
  C5 fails on the code for the same reason: the mixin declaration of the specification's
  example without its last semicolon, so that the rule list ends the input, throws
  instead of giving the Declaration.
\<close>

theorem mixin_at_end_of_input_throws:
  "parseDeclarationOrRuleset 13 (new_Tokenizer ''--foo: { color: red; }'') 0 = Throws TypeError
   \<and> parse ''--foo: { color: red; }'' = Throws TypeError"
  by code_simp

text \<open>The example of the specification, with its last semicolon, parses as it says.\<close>

lemma mixin_example:
  "parse ''--foo: { color: red; };'' =
     Returns (Stylesheet
       [Declaration ''--foo''
          (Some (RulelistValue
             (Rulelist
                [Declaration ''color'' (Some (Expression ''red'' \<lparr>start = 16, endp = 19\<rparr>))
                   \<lparr>start = 9, endp = 14\<rparr> \<lparr>start = 9, endp = 20\<rparr>]
                \<lparr>start = 7, endp = 22\<rparr>)))
          \<lparr>start = 0, endp = 5\<rparr> \<lparr>start = 0, endp = 6\<rparr>]
       \<lparr>start = 0, endp = 23\<rparr>)"
  by code_simp

section \<open>Progress: every parser function moves the cursor forward\<close>

lemma parseUnknown_loop_ge: "c \<le> snd (parseUnknown_loop tk c e)"
proof (induction tk c e rule: parseUnknown_loop.induct)
  case (1 tk c e)
  show ?case
  proof (cases "c < length (tokens tk) \<and> token_is (tok tk c) boundary")
    case True
    then have "parseUnknown_loop tk c e = parseUnknown_loop tk (Suc c) (Some c)"
      by (subst parseUnknown_loop.simps) simp
    moreover have "Suc c \<le> snd (parseUnknown_loop tk (Suc c) (Some c))"
      using True "1.IH" [of c] by simp
    ultimately show ?thesis by simp
  next
    case False
    then have "parseUnknown_loop tk c e = (e, c)"
      by (subst parseUnknown_loop.simps) (auto simp: currentToken_def)
    then show ?thesis by simp
  qed
qed

lemma parseUnknown_progress:
  assumes "c < length (tokens tk)"
  shows "c < snd (parseUnknown tk c)"
proof -
  have "Suc c \<le> snd (parseUnknown_loop tk (Suc c) None)"
    by (rule parseUnknown_loop_ge)
  with assms show ?thesis
    by (auto simp: parseUnknown_def split: prod.splits)
qed

lemma parseComment_snd: "snd (parseComment tk c) = (if c < length (tokens tk) then Suc c else c)"
  by (simp add: parseComment_def)

lemma parseAtRule_loop_ge:
  "parseAtRule_loop tk c nm nr ps pe = Returns (b, nm1, nr1, ps1, pe1, c1) \<Longrightarrow> c \<le> c1"
proof (induction tk c nm nr ps pe rule: parseAtRule_loop.induct)
  case (1 tk c name nameRange parametersStart parametersEnd)
  show ?case
  proof (cases "c < length (tokens tk)")
    case False
    with "1.prems" show ?thesis
      by (subst (asm) parseAtRule_loop.simps) simp
  next
    case inb: True
    then have cur: "currentToken tk c = Some c" by simp
    consider (ws) "token_is (tok tk c) whitespace"
      | (name) "\<not> token_is (tok tk c) whitespace"
          "not_name name \<and> token_is (tok tk c) at"
      | (stop) "\<not> token_is (tok tk c) whitespace"
          "\<not> (not_name name \<and> token_is (tok tk c) at)"
          "token_is (tok tk c) openBrace \<or> token_is (tok tk c) propertyBoundary"
      | (param) "\<not> token_is (tok tk c) whitespace"
          "\<not> (not_name name \<and> token_is (tok tk c) at)"
          "\<not> token_is (tok tk c) openBrace" "\<not> token_is (tok tk c) propertyBoundary"
      by blast
    then show ?thesis
    proof cases
      case ws
      with inb "1.prems"
      have "parseAtRule_loop tk (Suc c) name nameRange parametersStart parametersEnd
              = Returns (b, nm1, nr1, ps1, pe1, c1)"
        by (subst (asm) parseAtRule_loop.simps) simp
      from "1.IH"(1) [OF cur ws this] show ?thesis by simp
    next
      case name
      show ?thesis
      proof (cases "Suc c < length (tokens tk)")
        case False
        with name inb "1.prems" show ?thesis
          by (subst (asm) parseAtRule_loop.simps) simp
      next
        case True
        then have cur2: "currentToken tk (Suc c) = Some (Suc c)" by simp
        obtain e c2 where nm: "parseAtRule_name tk (Suc c) None = (e, c2)"
          by (cases "parseAtRule_name tk (Suc c) None")
        define nr' where "nr' = getRange tk (Suc c) e"
        from name inb True nm "1.prems"
        have "parseAtRule_loop tk c2
                (Some (String_slice (cssText tk) (start nr') (endp nr'))) (Some nr')
                parametersStart parametersEnd = Returns (b, nm1, nr1, ps1, pe1, c1)"
          by (subst (asm) parseAtRule_loop.simps) (simp add: nr'_def Let_def)
        from "1.IH"(2) [OF cur name(1) name(2) cur2 nm [symmetric] refl nr'_def this]
        have "c2 \<le> c1" .
        moreover have "Suc c \<le> c2"
          using parseAtRule_name_ge [of "Suc c" tk None] nm by simp
        ultimately show ?thesis by simp
      qed
    next
      case stop
      with inb "1.prems" show ?thesis
        by (subst (asm) parseAtRule_loop.simps) (auto split: if_splits)
    next
      case param
      show ?thesis
      proof (cases "parametersStart = None")
        case True
        with param inb "1.prems"
        have "parseAtRule_loop tk (Suc c) name nameRange (Some c) parametersEnd
                = Returns (b, nm1, nr1, ps1, pe1, c1)"
          by (subst (asm) parseAtRule_loop.simps) (simp cong: conj_cong)
        from "1.IH"(3) [OF cur param True this] show ?thesis by simp
      next
        case False
        with param inb "1.prems"
        have "parseAtRule_loop tk (Suc c) name nameRange parametersStart (Some c)
                = Returns (b, nm1, nr1, ps1, pe1, c1)"
          by (subst (asm) parseAtRule_loop.simps) (simp cong: conj_cong)
        from "1.IH"(4) [OF cur param False this] show ?thesis by simp
      qed
    qed
  qed
qed


lemma parseAtRule_loop_at_progress:
  assumes "c < length (tokens tk)" and "token_is (tok tk c) at"
    and "parseAtRule_loop tk c None nr ps pe = Returns (b, nm1, nr1, ps1, pe1, c1)"
  shows "c < c1"
proof -
  from assms(2) have nws: "\<not> token_is (tok tk c) whitespace"
    by (auto simp: token_is_def)
  show ?thesis
  proof (cases "Suc c < length (tokens tk)")
    case False
    with assms nws show ?thesis
      by (subst (asm) parseAtRule_loop.simps) (simp add: not_name_def)
  next
    case True
    obtain e c2 where nm: "parseAtRule_name tk (Suc c) None = (e, c2)"
      by (cases "parseAtRule_name tk (Suc c) None")
    define nr' where "nr' = getRange tk (Suc c) e"
    from assms nws True nm
    have "parseAtRule_loop tk c2
            (Some (String_slice (cssText tk) (start nr') (endp nr'))) (Some nr') ps pe
            = Returns (b, nm1, nr1, ps1, pe1, c1)"
      by (subst (asm) parseAtRule_loop.simps) (simp add: nr'_def Let_def not_name_def)
    then have "c2 \<le> c1" by (rule parseAtRule_loop_ge)
    moreover have "Suc c \<le> c2"
      using parseAtRule_name_ge [of "Suc c" tk None] nm by simp
    ultimately show ?thesis by simp
  qed
qed

lemma parseAtRule_node_snd:
  "parseAtRule_node tk s nm nr rl ps pe c = Returns (r, c1) \<Longrightarrow> c1 = c"
  by (auto simp: parseAtRule_node_def Let_def split: option.splits)

lemma declaration_node_ge:
  "declaration_node tk c rs re col = Returns (r, c1) \<Longrightarrow> c \<le> c1"
  by (auto simp: declaration_node_def Let_def advance_def split: option.splits if_splits)

lemma mixin_node_ge:
  "mixin_node tk c rl rs re = Returns (r, c1) \<Longrightarrow> c \<le> c1"
  by (auto simp: mixin_node_def Let_def advance_def split: option.splits if_splits)

lemma ruleset_node_snd: "snd (ruleset_node tk c sel sr rl rs) = c"
  by (simp add: ruleset_node_def Let_def)

lemma parseRulelist_progress:
  assumes loop: "\<And>c rules rs e c1.
      parseRulelist_loop n tk c rules = Returns (rs, e, c1) \<Longrightarrow> c \<le> c1"
    and res: "parseRulelist n tk c = Returns (rl, c1)"
  shows "c < c1"
proof -
  from res have inb: "c < length (tokens tk)"
    by (subst (asm) parseRulelist.simps) (auto simp: currentToken_def split: if_splits)
  with res obtain rules e where "parseRulelist_loop n tk (Suc c) [] = Returns (rules, e, c1)"
    by (subst (asm) parseRulelist.simps) (auto split: outcome.splits)
  from loop [OF this] show ?thesis by simp
qed

lemma parseDeclarationOrRuleset_progress:
  assumes rl: "\<And>c rl c1. parseRulelist n tk c = Returns (rl, c1) \<Longrightarrow> c < c1"
    and res: "parseDeclarationOrRuleset n tk c = Returns (r, c1)"
  shows "c \<le> c1" and "c < length (tokens tk) \<Longrightarrow> token_is (tok tk c) word \<Longrightarrow> c < c1"
proof -
  obtain c0 rs re col where sc: "scan tk c None None None = (c0, rs, re, col)"
    by (metis prod_cases4)
  have "scan_inv c None None None" by (simp add: scan_inv_def)
  from scan_invariant [OF this sc] have c0: "c \<le> c0" by simp
  have c1: "c0 \<le> c1"
  proof (cases "c0 < length (tokens tk)")
    case False
    with res sc show ?thesis
      by (subst (asm) parseDeclarationOrRuleset.simps) simp
  next
    case inb: True
    show ?thesis
    proof (cases "token_is (tok tk c0) propertyBoundary")
      case True
      with res sc inb have "declaration_node tk c0 rs re col = Returns (r, c1)"
        by (subst (asm) parseDeclarationOrRuleset.simps) simp
      then show ?thesis by (rule declaration_node_ge)
    next
      case False
      show ?thesis
      proof (cases "col \<noteq> None \<and> col = re")
        case True
        with res sc inb False obtain rlist c2
          where "parseRulelist n tk c0 = Returns (rlist, c2)"
            and "mixin_node tk c2 rlist rs (the re) = Returns (r, c1)"
          by (subst (asm) parseDeclarationOrRuleset.simps)
             (auto split: outcome.splits)
        with rl [of c0 rlist c2] mixin_node_ge [of tk c2 rlist rs "the re" r c1]
        show ?thesis by simp
      next
        case nomix: False
        with res sc inb False obtain rlist c2 s
          where "parseRulelist n tk c0 = Returns (rlist, c2)"
            and "ruleset_node tk c2 (String_slice (cssText tk) (start (getRange tk s re))
                   (endp (getRange tk s re))) (getRange tk s re) rlist s = (r, c1)"
          by (subst (asm) parseDeclarationOrRuleset.simps)
             (auto simp: Let_def split: outcome.splits option.splits)
        with rl [of c0 rlist c2] ruleset_node_snd show ?thesis
          by (metis less_imp_le_nat snd_conv)
      qed
    qed
  qed
  from c0 c1 show "c \<le> c1" by simp
  show "c < c1" if "c < length (tokens tk)" and "token_is (tok tk c) word"
  proof -
    from scan_word_first [OF that] sc
    have sc': "scan tk (Suc c) (Some c) (Some c) None = (c0, rs, re, col)" by simp
    have "scan_inv (Suc c) (Some c) (Some c) None" by (simp add: scan_inv_def)
    from scan_invariant [OF this sc'] have "Suc c \<le> c0" by simp
    with c1 show ?thesis by simp
  qed
qed

lemma parseAtRule_progress:
  assumes rl: "\<And>c rl c1. parseRulelist n tk c = Returns (rl, c1) \<Longrightarrow> c < c1"
    and res: "parseAtRule n tk c = Returns (r, c1)"
  shows "c \<le> c1" and "c < length (tokens tk) \<Longrightarrow> token_is (tok tk c) at \<Longrightarrow> c < c1"
proof -
  have main: "c \<le> c1 \<and> (token_is (tok tk c) at \<longrightarrow> c < c1)" if inb: "c < length (tokens tk)"
  proof -
    from res inb obtain b nm nr ps pe c0
      where lp: "parseAtRule_loop tk c None None None None = Returns (b, nm, nr, ps, pe, c0)"
      by (subst (asm) parseAtRule.simps) (auto split: outcome.splits)
    from lp have c0: "c \<le> c0" by (rule parseAtRule_loop_ge)
    have c0': "c < c0" if "token_is (tok tk c) at"
      using parseAtRule_loop_at_progress [OF inb that lp] .
    have "c0 \<le> c1"
    proof (cases b)
      case True
      with res inb lp obtain rlist c2
        where "parseRulelist n tk c0 = Returns (rlist, c2)"
          and "parseAtRule_node tk (start (tok tk c)) nm nr (Some rlist) ps pe c2 = Returns (r, c1)"
        by (subst (asm) parseAtRule.simps) (auto split: outcome.splits)
      with rl [of c0 rlist c2] parseAtRule_node_snd show ?thesis
        by (metis less_imp_le_nat)
    next
      case False
      with res inb lp
      have "parseAtRule_node tk (start (tok tk c)) nm nr None ps pe c0 = Returns (r, c1)"
        by (subst (asm) parseAtRule.simps) simp
      with parseAtRule_node_snd show ?thesis by (metis order_refl)
    qed
    with c0 c0' show ?thesis by auto
  qed
  show "c \<le> c1"
  proof (cases "c < length (tokens tk)")
    case True
    with main show ?thesis by simp
  next
    case False
    with res show ?thesis
      by (subst (asm) parseAtRule.simps) simp
  qed
  show "c < c1" if "c < length (tokens tk)" and "token_is (tok tk c) at"
    using main that by simp
qed

lemma parseRule_progress:
  assumes rl: "\<And>c rl c1. parseRulelist n tk c = Returns (rl, c1) \<Longrightarrow> c < c1"
    and res: "parseRule n tk c = Returns (r, c1)"
  shows "c \<le> c1" and "c < length (tokens tk) \<Longrightarrow> c < c1"
proof -
  have main: "c < c1" if inb: "c < length (tokens tk)"
  proof -
    consider (ws) "token_is (tok tk c) whitespace"
      | (comment) "\<not> token_is (tok tk c) whitespace" "token_is (tok tk c) comment"
      | (word) "\<not> token_is (tok tk c) whitespace" "\<not> token_is (tok tk c) comment"
          "token_is (tok tk c) word"
      | (at) "\<not> token_is (tok tk c) whitespace" "\<not> token_is (tok tk c) comment"
          "\<not> token_is (tok tk c) word" "\<not> token_is (tok tk c) propertyBoundary"
          "token_is (tok tk c) at"
      | (unknown) "\<not> token_is (tok tk c) whitespace" "\<not> token_is (tok tk c) comment"
          "\<not> token_is (tok tk c) word"
          "token_is (tok tk c) propertyBoundary \<or> \<not> token_is (tok tk c) at"
      by blast
    then show ?thesis
    proof cases
      case ws
      with res inb show ?thesis
        by (subst (asm) parseRule.simps) auto
    next
      case comment
      with res inb have "parseComment tk c = (r, c1)"
        by (subst (asm) parseRule.simps) simp
      with parseComment_snd [of tk c] inb show ?thesis by simp
    next
      case word
      with res inb have "parseDeclarationOrRuleset n tk c = Returns (r, c1)"
        by (subst (asm) parseRule.simps) simp
      from parseDeclarationOrRuleset_progress(2) [OF rl this inb word(3)] show ?thesis .
    next
      case at
      with res inb have "parseAtRule n tk c = Returns (r, c1)"
        by (subst (asm) parseRule.simps) simp
      from parseAtRule_progress(2) [OF rl this inb at(5)] show ?thesis .
    next
      case unknown
      with res inb have "parseUnknown tk c = (r, c1)"
        by (subst (asm) parseRule.simps) (auto split: if_splits)
      with parseUnknown_progress [OF inb] show ?thesis by simp
    qed
  qed
  show "c \<le> c1"
  proof (cases "c < length (tokens tk)")
    case True
    with main show ?thesis by simp
  next
    case False
    with res show ?thesis
      by (subst (asm) parseRule.simps) simp
  qed
  show "c < c1" if "c < length (tokens tk)"
    using main that .
qed

lemma parseRulelist_loop_ge:
  "parseRulelist_loop n tk c rules = Returns (rs, e, c1) \<Longrightarrow> c \<le> c1"
proof (induction n arbitrary: c rules rs e c1)
  case 0
  then show ?case
    by (subst (asm) parseRulelist_loop.simps)
       (auto simp: currentToken_def advance_def split: if_splits)
next
  case (Suc m)
  have rl: "c < c1" if "parseRulelist m tk c = Returns (rl, c1)" for c rl c1
    using parseRulelist_progress [OF Suc.IH that] .
  show ?case
  proof (cases "c < length (tokens tk) \<and> \<not> token_is (tok tk c) closeBrace")
    case False
    with Suc.prems show ?thesis
      by (subst (asm) parseRulelist_loop.simps)
         (auto simp: currentToken_def advance_def split: if_splits)
  next
    case True
    with Suc.prems obtain rule c0
      where pr: "parseRule m tk c = Returns (rule, c0)"
        and lp: "parseRulelist_loop m tk c0
                   (case rule of None \<Rightarrow> rules | Some r \<Rightarrow> rules @ [r]) = Returns (rs, e, c1)"
      by (subst (asm) parseRulelist_loop.simps) (auto split: outcome.splits)
    have "c \<le> c0"
      by (rule parseRule_progress(1) [of m tk c rule c0]) (auto intro: rl pr)
    with Suc.IH [OF lp] show ?thesis by simp
  qed
qed

lemma parseRulelist_gt: "parseRulelist n tk c = Returns (rl, c1) \<Longrightarrow> c < c1"
  using parseRulelist_progress [OF parseRulelist_loop_ge] .

lemma parseRule_ge: "parseRule n tk c = Returns (r, c1) \<Longrightarrow> c \<le> c1"
  using parseRule_progress(1) [OF parseRulelist_gt] .

lemma parseRule_gt:
  "parseRule n tk c = Returns (r, c1) \<Longrightarrow> c < length (tokens tk) \<Longrightarrow> c < c1"
  using parseRule_progress(2) [OF parseRulelist_gt] .

section \<open>Fuel: as many units as tokens are left is enough\<close>

lemma parseAtRule_loop_fuel: "parseAtRule_loop tk c nm nr ps pe \<noteq> OutOfFuel"
proof (induction tk c nm nr ps pe rule: parseAtRule_loop.induct)
  case (1 tk c name nameRange parametersStart parametersEnd)
  show ?case
  proof (cases "c < length (tokens tk)")
    case False
    then show ?thesis
      by (subst parseAtRule_loop.simps) simp
  next
    case inb: True
    then have cur: "currentToken tk c = Some c" by simp
    consider (ws) "token_is (tok tk c) whitespace"
      | (name) "\<not> token_is (tok tk c) whitespace"
          "not_name name \<and> token_is (tok tk c) at"
      | (stop) "\<not> token_is (tok tk c) whitespace"
          "\<not> (not_name name \<and> token_is (tok tk c) at)"
          "token_is (tok tk c) openBrace \<or> token_is (tok tk c) propertyBoundary"
      | (param) "\<not> token_is (tok tk c) whitespace"
          "\<not> (not_name name \<and> token_is (tok tk c) at)"
          "\<not> token_is (tok tk c) openBrace" "\<not> token_is (tok tk c) propertyBoundary"
      by blast
    then show ?thesis
    proof cases
      case ws
      from "1.IH"(1) [OF cur ws] ws inb show ?thesis
        by (subst parseAtRule_loop.simps) simp
    next
      case name
      show ?thesis
      proof (cases "Suc c < length (tokens tk)")
        case False
        with name inb show ?thesis
          by (subst parseAtRule_loop.simps) simp
      next
        case True
        then have cur2: "currentToken tk (Suc c) = Some (Suc c)" by simp
        obtain e c2 where nm: "parseAtRule_name tk (Suc c) None = (e, c2)"
          by (cases "parseAtRule_name tk (Suc c) None")
        from "1.IH"(2) [OF cur name(1) name(2) cur2 nm [symmetric] refl refl]
          name inb True nm
        show ?thesis
          by (subst parseAtRule_loop.simps) (simp add: Let_def)
      qed
    next
      case stop
      with inb show ?thesis
        by (subst parseAtRule_loop.simps) (auto split: if_splits)
    next
      case param
      show ?thesis
      proof (cases "parametersStart = None")
        case True
        from "1.IH"(3) [OF cur param True] param inb True show ?thesis
          by (subst parseAtRule_loop.simps) (auto cong: conj_cong)
      next
        case False
        from "1.IH"(4) [OF cur param False] param inb False show ?thesis
          by (subst parseAtRule_loop.simps) (auto cong: conj_cong)
      qed
    qed
  qed
qed

lemma parseAtRule_node_fuel: "parseAtRule_node tk s nm nr rl ps pe c \<noteq> OutOfFuel"
  by (auto simp: parseAtRule_node_def Let_def split: option.splits)

lemma declaration_node_fuel: "declaration_node tk c rs re col \<noteq> OutOfFuel"
  by (auto simp: declaration_node_def Let_def split: option.splits)

lemma mixin_node_fuel: "mixin_node tk c rl rs re \<noteq> OutOfFuel"
  by (auto simp: mixin_node_def Let_def split: option.splits)

text \<open>
  The four functions below the loop of parseRulelist do not spend fuel themselves: at
  fuel \<open>n\<close> they are given by the rule-list parser at fuel \<open>n\<close>.  The next lemmas carry
  a property of that parser over to them.
\<close>

lemma parseDeclarationOrRuleset_cases:
  obtains (simple) r where "\<forall>n. parseDeclarationOrRuleset n tk c = Returns r"
  | (decl) c0 rs re col where "scan tk c None None None = (c0, rs, re, col)"
      and "\<forall>n. parseDeclarationOrRuleset n tk c = declaration_node tk c0 rs re col"
  | (throws) "\<forall>n. parseDeclarationOrRuleset n tk c = Throws TypeError"
  | (mixin) c0 rs re col where "scan tk c None None None = (c0, rs, re, col)"
      and "c0 < length (tokens tk)"
      and "\<forall>n. parseDeclarationOrRuleset n tk c =
         (case parseRulelist n tk c0 of
            OutOfFuel \<Rightarrow> OutOfFuel
          | Throws e \<Rightarrow> Throws e
          | Returns (rulelist, c2) \<Rightarrow> mixin_node tk c2 rulelist rs (the re))"
  | (ruleset) c0 s re col where "scan tk c None None None = (c0, Some s, re, col)"
      and "c0 < length (tokens tk)"
      and "\<forall>n. parseDeclarationOrRuleset n tk c =
         (case parseRulelist n tk c0 of
            OutOfFuel \<Rightarrow> OutOfFuel
          | Throws e \<Rightarrow> Throws e
          | Returns (rulelist, c2) \<Rightarrow>
              Returns (ruleset_node tk c2
                 (String_slice (cssText tk) (start (getRange tk s re)) (endp (getRange tk s re)))
                 (getRange tk s re) rulelist s))"
proof -
  obtain c0 rs re col where sc: "scan tk c None None None = (c0, rs, re, col)"
    by (metis prod_cases4)
  show thesis
  proof (cases "c0 < length (tokens tk)")
    case False
    with sc have "\<forall>n. parseDeclarationOrRuleset n tk c = Returns (None, c0)"
      by (subst parseDeclarationOrRuleset.simps) simp
    then show thesis by (rule simple)
  next
    case inb: True
    show thesis
    proof (cases "token_is (tok tk c0) propertyBoundary")
      case True
      with sc inb
      have "\<forall>n. parseDeclarationOrRuleset n tk c = declaration_node tk c0 rs re col"
        by (subst parseDeclarationOrRuleset.simps) simp
      with sc show thesis by (rule decl)
    next
      case nb: False
      show thesis
      proof (cases "col \<noteq> None \<and> col = re")
        case True
        with sc inb nb show thesis
          by (intro mixin [OF sc inb]) (subst parseDeclarationOrRuleset.simps, auto)
      next
        case nomix: False
        show thesis
        proof (cases rs)
          case None
          with sc inb nb nomix have "\<forall>n. parseDeclarationOrRuleset n tk c = Throws TypeError"
            by (subst parseDeclarationOrRuleset.simps) auto
          then show thesis by (rule throws)
        next
          case (Some s)
          with sc inb nb nomix show thesis
            by (intro ruleset [of c0 s re col])
               (simp, simp, subst parseDeclarationOrRuleset.simps, auto simp: Let_def)
        qed
      qed
    qed
  qed
qed

lemma parseAtRule_cases:
  obtains (simple) r where "\<forall>n. parseAtRule n tk c = Returns r"
  | (throws) e where "\<forall>n. parseAtRule n tk c = Throws e"
  | (plain) nm nr ps pe c0 where
      "\<forall>n. parseAtRule n tk c = parseAtRule_node tk (start (tok tk c)) nm nr None ps pe c0"
  | (brace) nm nr ps pe c0 where "c < length (tokens tk)"
      and "parseAtRule_loop tk c None None None None = Returns (True, nm, nr, ps, pe, c0)"
      and "\<forall>n. parseAtRule n tk c =
         (case parseRulelist n tk c0 of
            OutOfFuel \<Rightarrow> OutOfFuel
          | Throws e \<Rightarrow> Throws e
          | Returns (rulelist, c2) \<Rightarrow>
              parseAtRule_node tk (start (tok tk c)) nm nr (Some rulelist) ps pe c2)"
proof (cases "c < length (tokens tk)")
  case False
  then have "\<forall>n. parseAtRule n tk c = Returns (None, c)"
    by (subst parseAtRule.simps) simp
  then show thesis by (rule simple)
next
  case inb: True
  show thesis
  proof (cases "parseAtRule_loop tk c None None None None")
    case OutOfFuel
    with parseAtRule_loop_fuel show thesis by blast
  next
    case (Throws e)
    with inb have "\<forall>n. parseAtRule n tk c = Throws e"
      by (subst parseAtRule.simps) simp
    then show thesis by (rule throws)
  next
    case (Returns x)
    obtain b nm nr ps pe c0 where x: "x = (b, nm, nr, ps, pe, c0)"
      by (metis prod_cases4 prod_cases3)
    show thesis
    proof (cases b)
      case True
      with Returns x inb show thesis
        by (intro brace [of nm nr ps pe c0]) (simp, simp, subst parseAtRule.simps, simp)
    next
      case False
      with Returns x inb show thesis
        by (intro plain [of nm nr ps pe c0]) (subst parseAtRule.simps, simp)
    qed
  qed
qed

lemma parseRule_cases:
  obtains (simple) r where "\<forall>n. parseRule n tk c = Returns r"
  | (word) "\<forall>n. parseRule n tk c = parseDeclarationOrRuleset n tk c"
  | (at) "\<forall>n. parseRule n tk c = parseAtRule n tk c"
proof (cases "c < length (tokens tk)")
  case False
  then have "\<forall>n. parseRule n tk c = Returns (None, c)"
    by (subst parseRule.simps) simp
  then show thesis by (rule simple)
next
  case inb: True
  consider (ws) "token_is (tok tk c) whitespace"
    | (cmt) "\<not> token_is (tok tk c) whitespace" "token_is (tok tk c) comment"
    | (wrd) "\<not> token_is (tok tk c) whitespace" "\<not> token_is (tok tk c) comment"
        "token_is (tok tk c) word"
    | (att) "\<not> token_is (tok tk c) whitespace" "\<not> token_is (tok tk c) comment"
        "\<not> token_is (tok tk c) word" "\<not> token_is (tok tk c) propertyBoundary"
        "token_is (tok tk c) at"
    | (unknown) "\<not> token_is (tok tk c) whitespace" "\<not> token_is (tok tk c) comment"
        "\<not> token_is (tok tk c) word"
        "token_is (tok tk c) propertyBoundary \<or> \<not> token_is (tok tk c) at"
    by blast
  then show thesis
  proof cases
    case ws
    with inb have "\<forall>n. parseRule n tk c = Returns (None, Suc c)"
      by (subst parseRule.simps) simp
    then show thesis by (rule simple)
  next
    case cmt
    with inb have "\<forall>n. parseRule n tk c = Returns (parseComment tk c)"
      by (subst parseRule.simps) simp
    then show thesis by (rule simple)
  next
    case wrd
    with inb have "\<forall>n. parseRule n tk c = parseDeclarationOrRuleset n tk c"
      by (subst parseRule.simps) simp
    then show thesis by (rule word)
  next
    case att
    with inb have "\<forall>n. parseRule n tk c = parseAtRule n tk c"
      by (subst parseRule.simps) simp
    then show thesis by (rule at)
  next
    case unknown
    with inb have "\<forall>n. parseRule n tk c = Returns (parseUnknown tk c)"
      by (subst parseRule.simps) auto
    then show thesis by (rule simple)
  qed
qed

lemma parseRulelist_cases:
  obtains (throws) "\<forall>n. parseRulelist n tk c = Throws TypeError"
  | (loop) "c < length (tokens tk)"
      and "\<forall>n. parseRulelist n tk c =
         (case parseRulelist_loop n tk (Suc c) [] of
            OutOfFuel \<Rightarrow> OutOfFuel
          | Throws e \<Rightarrow> Throws e
          | Returns (rules, endToken, c1) \<Rightarrow>
              Returns (Rulelist rules
                         \<lparr>start = start (tok tk c),
                          endp = (case endToken of
                                    Some e \<Rightarrow> endp (tok tk e)
                                  | None \<Rightarrow> length (cssText tk))\<rparr>, c1))"
proof (cases "c < length (tokens tk)")
  case False
  then have "\<forall>n. parseRulelist n tk c = Throws TypeError"
    by (subst parseRulelist.simps) simp
  then show thesis by (rule throws)
next
  case True
  then show thesis
    by (intro loop) (simp, subst parseRulelist.simps, simp)
qed


subsection \<open>Enough fuel\<close>

lemma parseRulelist_fuel_step:
  assumes loop: "\<And>c rules. length (tokens tk) - c \<le> n \<Longrightarrow> parseRulelist_loop n tk c rules \<noteq> OutOfFuel"
    and le: "length (tokens tk) - c \<le> Suc n"
  shows "parseRulelist n tk c \<noteq> OutOfFuel"
proof (cases rule: parseRulelist_cases [of tk c])
  case throws
  then show ?thesis by simp
next
  case loop
  from le have "length (tokens tk) - Suc c \<le> n" by simp
  from assms(1) [OF this, of "[]"] loop(2) show ?thesis
    by (auto split: outcome.splits)
qed

lemma parseDeclarationOrRuleset_fuel_step:
  assumes rl: "\<And>c. length (tokens tk) - c \<le> Suc n \<Longrightarrow> parseRulelist n tk c \<noteq> OutOfFuel"
    and le: "length (tokens tk) - c \<le> Suc n"
  shows "parseDeclarationOrRuleset n tk c \<noteq> OutOfFuel"
proof -
  have ge: "c \<le> c0" if "scan tk c None None None = (c0, rs, re, col)" for c0 rs re col
    using scan_invariant [OF _ that] by (simp add: scan_inv_def)
  show ?thesis
  proof (cases rule: parseDeclarationOrRuleset_cases [of tk c])
    case (simple r)
    then show ?thesis by simp
  next
    case (decl c0 rs re col)
    then show ?thesis by (simp add: declaration_node_fuel)
  next
    case throws
    then show ?thesis by simp
  next
    case (mixin c0 rs re col)
    from ge [OF mixin(1)] le have "length (tokens tk) - c0 \<le> Suc n" by simp
    from rl [OF this] mixin(3) show ?thesis
      by (auto simp: mixin_node_fuel split: outcome.splits)
  next
    case (ruleset c0 s re col)
    from ge [OF ruleset(1)] le have "length (tokens tk) - c0 \<le> Suc n" by simp
    from rl [OF this] ruleset(3) show ?thesis
      by (auto split: outcome.splits)
  qed
qed

lemma parseAtRule_fuel_step:
  assumes rl: "\<And>c. length (tokens tk) - c \<le> Suc n \<Longrightarrow> parseRulelist n tk c \<noteq> OutOfFuel"
    and le: "length (tokens tk) - c \<le> Suc n"
  shows "parseAtRule n tk c \<noteq> OutOfFuel"
proof (cases rule: parseAtRule_cases [of tk c])
  case (simple r)
  then show ?thesis by simp
next
  case (throws e)
  then show ?thesis by simp
next
  case (plain nm nr ps pe c0)
  then show ?thesis by (simp add: parseAtRule_node_fuel)
next
  case (brace nm nr ps pe c0)
  from parseAtRule_loop_ge [OF brace(2)] le have "length (tokens tk) - c0 \<le> Suc n" by simp
  from rl [OF this] brace(3) show ?thesis
    by (auto simp: parseAtRule_node_fuel split: outcome.splits)
qed

lemma parseRule_fuel_step:
  assumes rl: "\<And>c. length (tokens tk) - c \<le> Suc n \<Longrightarrow> parseRulelist n tk c \<noteq> OutOfFuel"
    and le: "length (tokens tk) - c \<le> Suc n"
  shows "parseRule n tk c \<noteq> OutOfFuel"
proof (cases rule: parseRule_cases [of tk c])
  case (simple r)
  then show ?thesis by simp
next
  case word
  with parseDeclarationOrRuleset_fuel_step [OF rl le] show ?thesis by simp
next
  case at
  with parseAtRule_fuel_step [OF rl le] show ?thesis by simp
qed

lemma parseRulelist_loop_fuel:
  "length (tokens tk) - c \<le> n \<Longrightarrow> parseRulelist_loop n tk c rules \<noteq> OutOfFuel"
proof (induction n arbitrary: c rules)
  case 0
  then show ?case
    by (subst parseRulelist_loop.simps) simp
next
  case (Suc m)
  have rl: "parseRulelist m tk c \<noteq> OutOfFuel" if "length (tokens tk) - c \<le> Suc m" for c
    using parseRulelist_fuel_step [OF Suc.IH that] .
  show ?case
  proof (cases "c < length (tokens tk) \<and> \<not> token_is (tok tk c) closeBrace")
    case False
    then show ?thesis
      by (subst parseRulelist_loop.simps) (auto simp: currentToken_def)
  next
    case True
    have pr: "parseRule m tk c \<noteq> OutOfFuel"
    proof (rule parseRule_fuel_step)
      show "parseRulelist m tk c' \<noteq> OutOfFuel" if "length (tokens tk) - c' \<le> Suc m" for c'
        using rl [OF that] .
      show "length (tokens tk) - c \<le> Suc m"
        using Suc.prems .
    qed
    show ?thesis
    proof (cases "parseRule m tk c")
      case OutOfFuel
      with pr show ?thesis by simp
    next
      case (Throws e)
      with True show ?thesis
        by (subst parseRulelist_loop.simps) simp
    next
      case (Returns x)
      obtain rule c0 where x: "x = (rule, c0)" by (cases x)
      from parseRule_gt [of m tk c rule c0] Returns x True have "c < c0" by simp
      with Suc.prems True have "length (tokens tk) - c0 \<le> m" by simp
      from Suc.IH [OF this] Returns x True show ?thesis
        by (subst parseRulelist_loop.simps) simp
    qed
  qed
qed

lemma parseRulelist_fuel:
  "length (tokens tk) - c \<le> Suc n \<Longrightarrow> parseRulelist n tk c \<noteq> OutOfFuel"
  using parseRulelist_fuel_step [OF parseRulelist_loop_fuel] .

lemma parseRule_fuel:
  "length (tokens tk) - c \<le> Suc n \<Longrightarrow> parseRule n tk c \<noteq> OutOfFuel"
  using parseRule_fuel_step [OF parseRulelist_fuel] .

lemma parseRules_fuel:
  "length (tokens tk) - c \<le> n \<Longrightarrow> parseRules n tk c rules \<noteq> OutOfFuel"
proof (induction n arbitrary: c rules)
  case 0
  then show ?case
    by (subst parseRules.simps) simp
next
  case (Suc m)
  show ?case
  proof (cases "c < length (tokens tk)")
    case False
    then show ?thesis
      by (subst parseRules.simps) simp
  next
    case True
    from Suc.prems have pr: "parseRule m tk c \<noteq> OutOfFuel"
      by (intro parseRule_fuel) simp
    show ?thesis
    proof (cases "parseRule m tk c")
      case OutOfFuel
      with pr show ?thesis by simp
    next
      case (Throws e)
      with True show ?thesis
        by (subst parseRules.simps) simp
    next
      case (Returns x)
      obtain rule c0 where x: "x = (rule, c0)" by (cases x)
      from parseRule_gt [of m tk c rule c0] Returns x True have "c < c0" by simp
      with Suc.prems True have "length (tokens tk) - c0 \<le> m" by simp
      from Suc.IH [OF this] Returns x True show ?thesis
        by (subst parseRules.simps) simp
    qed
  qed
qed

subsection \<open>More fuel does not change a result\<close>

lemma parseRulelist_mono_step:
  assumes loop: "\<And>c rules. parseRulelist_loop n tk c rules \<noteq> OutOfFuel \<Longrightarrow>
      parseRulelist_loop (Suc n) tk c rules = parseRulelist_loop n tk c rules"
    and res: "parseRulelist n tk c \<noteq> OutOfFuel"
  shows "parseRulelist (Suc n) tk c = parseRulelist n tk c"
proof (cases rule: parseRulelist_cases [of tk c])
  case throws
  then show ?thesis by simp
next
  case loop
  with res have "parseRulelist_loop n tk (Suc c) [] \<noteq> OutOfFuel"
    by (auto split: outcome.splits)
  from assms(1) [OF this] loop(2) show ?thesis by simp
qed

lemma parseDeclarationOrRuleset_mono_step:
  assumes rl: "\<And>c. parseRulelist n tk c \<noteq> OutOfFuel \<Longrightarrow>
      parseRulelist (Suc n) tk c = parseRulelist n tk c"
    and res: "parseDeclarationOrRuleset n tk c \<noteq> OutOfFuel"
  shows "parseDeclarationOrRuleset (Suc n) tk c = parseDeclarationOrRuleset n tk c"
proof (cases rule: parseDeclarationOrRuleset_cases [of tk c])
  case (simple r)
  then show ?thesis by simp
next
  case (decl c0 rs re col)
  then show ?thesis by simp
next
  case throws
  then show ?thesis by simp
next
  case (mixin c0 rs re col)
  with res have "parseRulelist n tk c0 \<noteq> OutOfFuel"
    by (auto split: outcome.splits)
  from rl [OF this] mixin(3) show ?thesis by simp
next
  case (ruleset c0 s re col)
  with res have "parseRulelist n tk c0 \<noteq> OutOfFuel"
    by (auto split: outcome.splits)
  from rl [OF this] ruleset(3) show ?thesis by simp
qed

lemma parseAtRule_mono_step:
  assumes rl: "\<And>c. parseRulelist n tk c \<noteq> OutOfFuel \<Longrightarrow>
      parseRulelist (Suc n) tk c = parseRulelist n tk c"
    and res: "parseAtRule n tk c \<noteq> OutOfFuel"
  shows "parseAtRule (Suc n) tk c = parseAtRule n tk c"
proof (cases rule: parseAtRule_cases [of tk c])
  case (simple r)
  then show ?thesis by simp
next
  case (throws e)
  then show ?thesis by simp
next
  case (plain nm nr ps pe c0)
  then show ?thesis by simp
next
  case (brace nm nr ps pe c0)
  with res have "parseRulelist n tk c0 \<noteq> OutOfFuel"
    by (auto split: outcome.splits)
  from rl [OF this] brace(3) show ?thesis by simp
qed

lemma parseRule_mono_step:
  assumes rl: "\<And>c. parseRulelist n tk c \<noteq> OutOfFuel \<Longrightarrow>
      parseRulelist (Suc n) tk c = parseRulelist n tk c"
    and res: "parseRule n tk c \<noteq> OutOfFuel"
  shows "parseRule (Suc n) tk c = parseRule n tk c"
proof (cases rule: parseRule_cases [of tk c])
  case (simple r)
  then show ?thesis by simp
next
  case word
  with parseDeclarationOrRuleset_mono_step [OF rl, of c] res show ?thesis by simp
next
  case at
  with parseAtRule_mono_step [OF rl, of c] res show ?thesis by simp
qed

lemma parseRulelist_loop_mono:
  "parseRulelist_loop n tk c rules \<noteq> OutOfFuel \<Longrightarrow>
   parseRulelist_loop (Suc n) tk c rules = parseRulelist_loop n tk c rules"
proof (induction n arbitrary: c rules)
  case 0
  then show ?case
    by (subst parseRulelist_loop.simps, subst (asm) parseRulelist_loop.simps,
        subst (2) parseRulelist_loop.simps) (auto split: option.splits if_splits)
next
  case (Suc m)
  have rl: "parseRulelist (Suc m) tk c = parseRulelist m tk c"
    if "parseRulelist m tk c \<noteq> OutOfFuel" for c
    using parseRulelist_mono_step [OF Suc.IH that] .
  show ?case
  proof (cases "c < length (tokens tk) \<and> \<not> token_is (tok tk c) closeBrace")
    case False
    then show ?thesis
      by (subst parseRulelist_loop.simps, subst (2) parseRulelist_loop.simps)
         (auto simp: currentToken_def)
  next
    case True
    show ?thesis
    proof (cases "parseRule m tk c")
      case OutOfFuel
      with True Suc.prems show ?thesis
        by (subst (asm) parseRulelist_loop.simps) simp
    next
      case (Throws e)
      moreover from Throws have "parseRule (Suc m) tk c = parseRule m tk c"
        by (intro parseRule_mono_step) (auto intro: rl)
      ultimately show ?thesis using True
        by (subst parseRulelist_loop.simps, subst (2) parseRulelist_loop.simps) simp
    next
      case (Returns x)
      obtain rule c0 where x: "x = (rule, c0)" by (cases x)
      from Returns have pr: "parseRule (Suc m) tk c = parseRule m tk c"
        by (intro parseRule_mono_step) (auto intro: rl)
      define rules' where "rules' = (case rule of None \<Rightarrow> rules | Some r \<Rightarrow> rules @ [r])"
      from Suc.prems True Returns x have "parseRulelist_loop m tk c0 rules' \<noteq> OutOfFuel"
        by (subst (asm) parseRulelist_loop.simps) (simp add: rules'_def)
      from Suc.IH [OF this] pr Returns x True show ?thesis
        by (subst parseRulelist_loop.simps, subst (2) parseRulelist_loop.simps)
           (simp add: rules'_def)
    qed
  qed
qed

lemma parseRulelist_mono:
  "parseRulelist n tk c \<noteq> OutOfFuel \<Longrightarrow> parseRulelist (Suc n) tk c = parseRulelist n tk c"
  using parseRulelist_mono_step [OF parseRulelist_loop_mono] .

lemma parseRule_mono:
  "parseRule n tk c \<noteq> OutOfFuel \<Longrightarrow> parseRule (Suc n) tk c = parseRule n tk c"
  using parseRule_mono_step [OF parseRulelist_mono] .

lemma parseRules_mono:
  "parseRules n tk c rules \<noteq> OutOfFuel \<Longrightarrow>
   parseRules (Suc n) tk c rules = parseRules n tk c rules"
proof (induction n arbitrary: c rules)
  case 0
  then show ?case
    by (subst parseRules.simps, subst (asm) parseRules.simps, subst (2) parseRules.simps)
       (auto split: option.splits)
next
  case (Suc m)
  show ?case
  proof (cases "c < length (tokens tk)")
    case False
    then show ?thesis
      by (subst parseRules.simps, subst (2) parseRules.simps) simp
  next
    case True
    show ?thesis
    proof (cases "parseRule m tk c")
      case OutOfFuel
      with True Suc.prems show ?thesis
        by (subst (asm) parseRules.simps) simp
    next
      case (Throws e)
      moreover from Throws have "parseRule (Suc m) tk c = parseRule m tk c"
        by (intro parseRule_mono) simp
      ultimately show ?thesis using True
        by (subst parseRules.simps, subst (2) parseRules.simps) simp
    next
      case (Returns x)
      obtain rule c0 where x: "x = (rule, c0)" by (cases x)
      from Returns have pr: "parseRule (Suc m) tk c = parseRule m tk c"
        by (intro parseRule_mono) simp
      define rules' where "rules' = (case rule of None \<Rightarrow> rules | Some r \<Rightarrow> rules @ [r])"
      from Suc.prems True Returns x have "parseRules m tk c0 rules' \<noteq> OutOfFuel"
        by (subst (asm) parseRules.simps) (simp add: rules'_def)
      from Suc.IH [OF this] pr Returns x True show ?thesis
        by (subst parseRules.simps, subst (2) parseRules.simps) (simp add: rules'_def)
    qed
  qed
qed

lemma parseRules_mono_le:
  assumes "parseRules n tk c rules \<noteq> OutOfFuel" and "n \<le> m"
  shows "parseRules m tk c rules = parseRules n tk c rules"
  using assms(2)
proof (induction m rule: dec_induct)
  case base
  show ?case by simp
next
  case (step k)
  with assms(1) parseRules_mono [of k tk c rules] show ?case by simp
qed

section \<open>Termination of parse\<close>

text \<open>
  C9: parse terminates on every input.  In the model the fuel counts the iterations of
  the rule loops, and parse hands over as much fuel as there are tokens: it never runs
  out (first conjunct), more fuel gives the same result (second), and in general the
  loop of parseRules needs no more iterations than there are tokens left (third).  The
  reason is that an iteration that returns has moved the cursor forward (fourth), as
  has the recovery by parseUnknown (fifth).
\<close>

theorem parse_terminates:
  "parse css \<noteq> OutOfFuel
   \<and> (length (tokens (new_Tokenizer css)) \<le> n \<longrightarrow>
        parseStylesheet n (new_Tokenizer css) = parse css)
   \<and> (length (tokens tk) - c \<le> n \<longrightarrow> parseRules n tk c rules \<noteq> OutOfFuel)
   \<and> (c < length (tokens tk) \<longrightarrow> parseRule n tk c = Returns (r, c1) \<longrightarrow> c < c1)
   \<and> (c < length (tokens tk) \<longrightarrow> c < snd (parseUnknown tk c))"
proof -
  let ?tk = "new_Tokenizer css"
  have fuel: "parseRules (length (tokens ?tk)) ?tk 0 [] \<noteq> OutOfFuel"
    by (rule parseRules_fuel) simp
  then have "parse css \<noteq> OutOfFuel"
    by (auto simp: parse_def parseStylesheet_def Let_def split: outcome.splits)
  moreover have "parseStylesheet n ?tk = parse css" if "length (tokens ?tk) \<le> n"
    using parseRules_mono_le [OF fuel that]
    by (simp add: parse_def parseStylesheet_def Let_def)
  moreover have "parseRules n tk c rules \<noteq> OutOfFuel" if "length (tokens tk) - c \<le> n"
    using that by (rule parseRules_fuel)
  moreover have "c < c1" if "c < length (tokens tk)" and "parseRule n tk c = Returns (r, c1)"
    using parseRule_gt [OF that(2) that(1)] .
  moreover have "c < snd (parseUnknown tk c)" if "c < length (tokens tk)"
    using that by (rule parseUnknown_progress)
  ultimately show ?thesis by blast
qed

theorem parse_terminates_witness:
  "parse ''.a{;}'' \<noteq> OutOfFuel
   \<and> parseStylesheet 7 (new_Tokenizer ''.a{;}'') = parse ''.a{;}''
   \<and> parseRules 7 (new_Tokenizer ''.a{;}'') 2 [] \<noteq> OutOfFuel
   \<and> parseRule 7 (new_Tokenizer ''.a{;}'') 2
        = Returns (Some (Discarded '';}'' \<lparr>start = 3, endp = 5\<rparr>), 4)
   \<and> (2::nat) < 4
   \<and> 2 < snd (parseUnknown (new_Tokenizer ''.a{;}'') 2)"
proof -
  let ?tk = "new_Tokenizer ''.a{;}''"
  have l: "length (tokens ?tk) = 4"
    by code_simp
  have p: "parseRule 7 ?tk 2 = Returns (Some (Discarded '';}'' \<lparr>start = 3, endp = 5\<rparr>), 4)"
    by code_simp
  from l have h: "length (tokens ?tk) \<le> 7" "length (tokens ?tk) - 2 \<le> 7"
    "2 < length (tokens ?tk)"
    by simp_all
  from parse_terminates [where css = "''.a{;}''" and n = 7 and tk = ?tk and c = 2
      and rules = "[]" and r = "Some (Discarded '';}'' \<lparr>start = 3, endp = 5\<rparr>)" and ?c1.0 = 4]
    h p
  show ?thesis by blast
qed

section \<open>The rule list\<close>

lemma parseRule_mono_le:
  assumes "parseRule m tk c \<noteq> OutOfFuel" and "m \<le> n"
  shows "parseRule n tk c = parseRule m tk c"
  using assms(2)
proof (induction n rule: dec_induct)
  case base
  show ?case by simp
next
  case (step k)
  with assms(1) parseRule_mono [of k tk c] show ?case by simp
qed

lemma parseRulelist_loop_chain:
  "parseRulelist_loop m tk c rules = Returns (rs, endToken, c1) \<Longrightarrow> m \<le> n \<Longrightarrow>
   \<exists>steps. ruleChain n tk c steps \<and> rs = rules @ chainRules steps
     \<and> (case endToken of
          Some e \<Rightarrow> e = chainEnd c steps \<and> e < length (tokens tk)
                     \<and> token_is (tok tk e) closeBrace \<and> c1 = Suc e
        | None \<Rightarrow> c1 = chainEnd c steps \<and> length (tokens tk) \<le> c1)"
proof (induction m arbitrary: c rules)
  case 0
  then have "rs = rules \<and>
      (case endToken of
          Some e \<Rightarrow> e = c \<and> e < length (tokens tk) \<and> token_is (tok tk e) closeBrace \<and> c1 = Suc e
        | None \<Rightarrow> c1 = c \<and> length (tokens tk) \<le> c1)"
    by (subst (asm) parseRulelist_loop.simps)
       (auto simp: currentToken_def split: if_splits)
  then show ?case
    by (intro exI [of _ "[]"]) (auto simp: chainEnd_def split: option.splits)
next
  case (Suc k)
  show ?case
  proof (cases "c < length (tokens tk) \<and> \<not> token_is (tok tk c) closeBrace")
    case False
    with Suc.prems(1) have "rs = rules \<and>
      (case endToken of
          Some e \<Rightarrow> e = c \<and> e < length (tokens tk) \<and> token_is (tok tk e) closeBrace \<and> c1 = Suc e
        | None \<Rightarrow> c1 = c \<and> length (tokens tk) \<le> c1)"
      by (subst (asm) parseRulelist_loop.simps)
         (auto simp: currentToken_def split: if_splits)
    then show ?thesis
      by (intro exI [of _ "[]"]) (auto simp: chainEnd_def split: option.splits)
  next
    case True
    define rules' where "rules' rule = (case rule of None \<Rightarrow> rules | Some r \<Rightarrow> rules @ [r])"
      for rule :: "Rule option"
    from True Suc.prems(1) obtain rule c0
      where pr: "parseRule k tk c = Returns (rule, c0)"
        and lp: "parseRulelist_loop k tk c0 (rules' rule) = Returns (rs, endToken, c1)"
      by (subst (asm) parseRulelist_loop.simps) (auto simp: rules'_def split: outcome.splits)
    from Suc.prems(2) have kn: "k \<le> n" by simp
    from Suc.IH [OF lp kn] obtain steps
      where ch: "ruleChain n tk c0 steps" and rs: "rs = rules' rule @ chainRules steps"
        and en: "case endToken of
          Some e \<Rightarrow> e = chainEnd c0 steps \<and> e < length (tokens tk)
                     \<and> token_is (tok tk e) closeBrace \<and> c1 = Suc e
        | None \<Rightarrow> c1 = chainEnd c0 steps \<and> length (tokens tk) \<le> c1"
      by blast
    from pr kn have prn: "parseRule n tk c = Returns (rule, c0)"
      using parseRule_mono_le [of k tk c n] by simp
    have "ruleChain n tk c ((rule, c0) # steps)"
      using True prn ch by simp
    moreover have "rs = rules @ chainRules ((rule, c0) # steps)"
      using rs by (cases rule) (simp_all add: rules'_def)
    moreover have "chainEnd c ((rule, c0) # steps) = chainEnd c0 steps"
      by (simp add: chainEnd_def)
    ultimately show ?thesis
      using en by (intro exI [of _ "(rule, c0) # steps"]) (auto split: option.splits)
  qed
qed

text \<open>
  What parseRulelist returns when it returns: the nodes of consecutive calls of
  parseRule, from the token after the opening brace on, up to a closing brace, which is
  consumed and ends the range, or up to the end of the input, where the range ends with
  the text.
\<close>

lemma parseRulelist_returns:
  assumes "c < length (tokens tk)" and "parseRulelist n tk c = Returns (rl, c1)"
  shows "\<exists>steps. ruleChain n tk (Suc c) steps
     \<and> ((chainEnd (Suc c) steps < length (tokens tk)
          \<and> token_is (tok tk (chainEnd (Suc c) steps)) closeBrace
          \<and> c1 = Suc (chainEnd (Suc c) steps)
          \<and> rl = Rulelist (chainRules steps)
                 \<lparr>start = start (tok tk c), endp = endp (tok tk (chainEnd (Suc c) steps))\<rparr>)
        \<or> (length (tokens tk) \<le> chainEnd (Suc c) steps
          \<and> c1 = chainEnd (Suc c) steps
          \<and> rl = Rulelist (chainRules steps)
                 \<lparr>start = start (tok tk c), endp = length (cssText tk)\<rparr>))"
proof -
  from assms obtain rules endToken
    where lp: "parseRulelist_loop n tk (Suc c) [] = Returns (rules, endToken, c1)"
      and rl: "rl = Rulelist rules
                 \<lparr>start = start (tok tk c),
                  endp = (case endToken of
                            Some e \<Rightarrow> endp (tok tk e)
                          | None \<Rightarrow> length (cssText tk))\<rparr>"
    by (subst (asm) parseRulelist.simps) (auto split: outcome.splits)
  from parseRulelist_loop_chain [OF lp order_refl] obtain steps
    where "ruleChain n tk (Suc c) steps" and "rules = chainRules steps"
      and "case endToken of
          Some e \<Rightarrow> e = chainEnd (Suc c) steps \<and> e < length (tokens tk)
                     \<and> token_is (tok tk e) closeBrace \<and> c1 = Suc e
        | None \<Rightarrow> c1 = chainEnd (Suc c) steps \<and> length (tokens tk) \<le> c1"
    by auto
  with rl show ?thesis
    by (intro exI [of _ steps]) (cases endToken; simp)
qed

lemma unterminated_block_example:
  "parse ''.a { color: red;'' =
       Returns (Stylesheet
         [Ruleset ''.a''
            (Rulelist
               [Declaration ''color'' (Some (Expression ''red'' \<lparr>start = 12, endp = 15\<rparr>))
                  \<lparr>start = 5, endp = 10\<rparr> \<lparr>start = 5, endp = 15\<rparr>]
               \<lparr>start = 3, endp = 16\<rparr>)
            \<lparr>start = 0, endp = 2\<rparr> \<lparr>start = 0, endp = 16\<rparr>]
         \<lparr>start = 0, endp = 16\<rparr>)"
  by code_simp

text \<open>
  C7 fails on the code.  In \<open>.a{b:{\<close> the token 1 is the opening brace of an
  unterminated block.  parseRulelist, called there, parses the rule \<open>b:{\<close>, a mixin
  declaration whose own rule list runs to the end of the input, and line 314 reads
  \<open>tokenizer.currentToken.is\<close> on \<open>null\<close>: the call throws, where the claim has it
  return a Rulelist that ends with the text.
\<close>

theorem parseRulelist_throws_in_unterminated_block:
  "token_is (tok (new_Tokenizer ''.a{b:{'') 1) openBrace
   \<and> parseRulelist 5 (new_Tokenizer ''.a{b:{'') 1 = Throws TypeError
   \<and> parse ''.a{b:{'' = Throws TypeError"
  by code_simp

section \<open>The declaration\<close>

text \<open>
  C4: the scan has recorded the rule start \<open>s\<close> and stops at a token \<open>c1\<close> of the
  property-boundary class.  Then parseDeclarationOrRuleset returns a Declaration.  Its
  name range starts where \<open>s\<close> starts; it ends where the rule end \<open>e\<close> ends when no
  colon is recorded, and where the token before the colon \<open>k\<close> ends when one is.  The
  name is the text of the name range.  Without a colon the declaration has no value;
  with a colon, which always has a next token here, the value is the Expression for the
  trimmed range from the start of that next token to the end of the rule end.  The
  cursor moves past the stopping token when that is a semicolon, and stays otherwise.
  The text \<open>a: b;\<close> gives one Declaration with the name \<open>a\<close> and the value \<open>b\<close>.
\<close>

theorem declaration_at_propertyBoundary:
  "(scan tk c None None None = (c1, Some s, ruleEnd, col)
      \<and> c1 < length (tokens tk) \<and> token_is (tok tk c1) propertyBoundary \<longrightarrow>
    (\<exists>e name val nameRange range.
       ruleEnd = Some e
       \<and> parseDeclarationOrRuleset n tk c =
           Returns (Some (Declaration name val nameRange range),
                    if token_is (tok tk c1) semicolon then Suc c1 else c1)
       \<and> start nameRange = start (tok tk s)
       \<and> (col = None \<longrightarrow> endp nameRange = endp (tok tk e))
       \<and> (\<forall>k. col = Some k \<and> 0 < k \<longrightarrow> endp nameRange = endp (tok tk (k - 1)))
       \<and> name = String_slice (cssText tk) (start nameRange) (endp nameRange)
       \<and> (col = None \<longrightarrow> val = None)
       \<and> (\<forall>k. col = Some k \<longrightarrow>
             next_token tk k = Some (Suc k)
             \<and> val = Some (Expression
                   (String_slice (cssText tk)
                      (start (trimRange tk \<lparr>start = start (tok tk (Suc k)), endp = endp (tok tk e)\<rparr>))
                      (endp (trimRange tk \<lparr>start = start (tok tk (Suc k)), endp = endp (tok tk e)\<rparr>)))
                   (trimRange tk \<lparr>start = start (tok tk (Suc k)), endp = endp (tok tk e)\<rparr>)))))
   \<and> parse ''a: b;'' =
       Returns (Stylesheet
         [Declaration ''a'' (Some (Expression ''b'' \<lparr>start = 3, endp = 4\<rparr>))
            \<lparr>start = 0, endp = 1\<rparr> \<lparr>start = 0, endp = 4\<rparr>]
         \<lparr>start = 0, endp = 5\<rparr>)"
proof (intro conjI impI)
  assume a: "scan tk c None None None = (c1, Some s, ruleEnd, col)
      \<and> c1 < length (tokens tk) \<and> token_is (tok tk c1) propertyBoundary"
  then have sc: "scan tk c None None None = (c1, Some s, ruleEnd, col)"
    and inb: "c1 < length (tokens tk)" and pb: "token_is (tok tk c1) propertyBoundary"
    by simp_all
  have "scan_inv c None None None" by (simp add: scan_inv_def)
  from scan_invariant [OF this sc] have inv: "scan_inv c1 (Some s) ruleEnd col" by simp
  then obtain e where re: "ruleEnd = Some e" and e: "s \<le> e" "e < c1"
    by (auto simp: scan_inv_def split: option.splits)
  from inv re have k: "s \<le> k \<and> k \<le> e" if "col = Some k" for k
    using that by (auto simp: scan_inv_def)
  from sc inb pb have eq: "parseDeclarationOrRuleset n tk c = declaration_node tk c1 (Some s) ruleEnd col"
    by (subst parseDeclarationOrRuleset.simps) simp
  have nx: "next_token tk k = Some (Suc k)" if "col = Some k" for k
    using k [OF that] e inb by (simp add: next_token_def)
  show "\<exists>e name val nameRange range.
       ruleEnd = Some e
       \<and> parseDeclarationOrRuleset n tk c =
           Returns (Some (Declaration name val nameRange range),
                    if token_is (tok tk c1) semicolon then Suc c1 else c1)
       \<and> start nameRange = start (tok tk s)
       \<and> (col = None \<longrightarrow> endp nameRange = endp (tok tk e))
       \<and> (\<forall>k. col = Some k \<and> 0 < k \<longrightarrow> endp nameRange = endp (tok tk (k - 1)))
       \<and> name = String_slice (cssText tk) (start nameRange) (endp nameRange)
       \<and> (col = None \<longrightarrow> val = None)
       \<and> (\<forall>k. col = Some k \<longrightarrow>
             next_token tk k = Some (Suc k)
             \<and> val = Some (Expression
                   (String_slice (cssText tk)
                      (start (trimRange tk \<lparr>start = start (tok tk (Suc k)), endp = endp (tok tk e)\<rparr>))
                      (endp (trimRange tk \<lparr>start = start (tok tk (Suc k)), endp = endp (tok tk e)\<rparr>)))
                   (trimRange tk \<lparr>start = start (tok tk (Suc k)), endp = endp (tok tk e)\<rparr>)))"
  proof (cases col)
    case None
    with eq re inb show ?thesis
      by (simp add: declaration_node_def Let_def getRange_def)
  next
    case (Some k)
    with eq re inb nx [OF Some] show ?thesis
      by (simp add: declaration_node_def Let_def getRange_def previous_def)
  qed
next
  show "parse ''a: b;'' =
       Returns (Stylesheet
         [Declaration ''a'' (Some (Expression ''b'' \<lparr>start = 3, endp = 4\<rparr>))
            \<lparr>start = 0, endp = 1\<rparr> \<lparr>start = 0, endp = 4\<rparr>]
         \<lparr>start = 0, endp = 5\<rparr>)"
    by code_simp
qed

text \<open>
  The theorem at \<open>a: b;\<close> (tokens \<open>a\<close>, colon, whitespace, \<open>b\<close>, semicolon): the
  scan stops at token 4 with the colon 1 and the rule end 3.
\<close>

theorem declaration_at_propertyBoundary_witness:
  "\<exists>name val nameRange range.
     parseDeclarationOrRuleset 0 (new_Tokenizer ''a: b;'') 0 =
       Returns (Some (Declaration name val nameRange range), 5)
     \<and> start nameRange = 0 \<and> endp nameRange = 1 \<and> name = ''a''
     \<and> val = Some (Expression ''b'' \<lparr>start = 3, endp = 4\<rparr>)"
proof -
  let ?tk = "new_Tokenizer ''a: b;''"
  have sc: "scan ?tk 0 None None None = (4, Some 0, Some 3, Some 1)"
    by code_simp
  have l: "4 < length (tokens ?tk)"
    by code_simp
  have pb: "token_is (tok ?tk 4) propertyBoundary" and semi: "token_is (tok ?tk 4) semicolon"
    by code_simp+
  have ev: "start (tok ?tk 0) = 0" "endp (tok ?tk (1 - 1)) = 1"
    "String_slice (cssText ?tk) 0 1 = ''a''"
    "trimRange ?tk \<lparr>start = start (tok ?tk (Suc 1)), endp = endp (tok ?tk 3)\<rparr>
       = \<lparr>start = 3, endp = 4\<rparr>"
    "String_slice (cssText ?tk) 3 4 = ''b''"
    by code_simp+
  from declaration_at_propertyBoundary [where tk = ?tk and c = 0 and ?c1.0 = 4 and s = 0
      and ruleEnd = "Some 3" and col = "Some 1" and n = 0] sc l pb
  obtain name val nameRange range
    where "parseDeclarationOrRuleset 0 ?tk 0 =
             Returns (Some (Declaration name val nameRange range),
                      if token_is (tok ?tk 4) semicolon then Suc 4 else 4)"
      and "start nameRange = start (tok ?tk 0)"
      and "endp nameRange = endp (tok ?tk (1 - 1))"
      and "name = String_slice (cssText ?tk) (start nameRange) (endp nameRange)"
      and "val = Some (Expression
                   (String_slice (cssText ?tk)
                      (start (trimRange ?tk \<lparr>start = start (tok ?tk (Suc 1)), endp = endp (tok ?tk 3)\<rparr>))
                      (endp (trimRange ?tk \<lparr>start = start (tok ?tk (Suc 1)), endp = endp (tok ?tk 3)\<rparr>)))
                   (trimRange ?tk \<lparr>start = start (tok ?tk (Suc 1)), endp = endp (tok ?tk 3)\<rparr>))"
    by auto
  with semi ev show ?thesis by simp
qed

section \<open>The at-rule\<close>

text \<open>What the loop over the name returns: the word tokens from \<open>c\<close> on, as far as they go.\<close>

lemma parseAtRule_name_words:
  "parseAtRule_name tk c e = (e1, c1) \<Longrightarrow>
   c \<le> c1 \<and> (\<forall>i. c \<le> i \<and> i < c1 \<longrightarrow> token_is (tok tk i) word)
   \<and> (c1 < length (tokens tk) \<longrightarrow> \<not> token_is (tok tk c1) word)
   \<and> e1 = (if c < c1 then Some (c1 - 1) else e)"
proof (induction tk c e rule: parseAtRule_name.induct)
  case (1 tk c e)
  show ?case
  proof (cases "c < length (tokens tk) \<and> token_is (tok tk c) word")
    case True
    with "1.prems" have "parseAtRule_name tk (Suc c) (Some c) = (e1, c1)"
      by (subst (asm) parseAtRule_name.simps) simp
    from "1.IH" [OF _ _ this] True
    have ih: "Suc c \<le> c1" "\<forall>i. Suc c \<le> i \<and> i < c1 \<longrightarrow> token_is (tok tk i) word"
      "c1 < length (tokens tk) \<longrightarrow> \<not> token_is (tok tk c1) word"
      "e1 = (if Suc c < c1 then Some (c1 - 1) else Some c)"
      by simp_all
    have "token_is (tok tk i) word" if "c \<le> i" "i < c1" for i
    proof (cases "i = c")
      case True
      with \<open>c < length (tokens tk) \<and> token_is (tok tk c) word\<close> show ?thesis by simp
    next
      case False
      with that ih(2) show ?thesis by simp
    qed
    moreover from ih(1) ih(4) have "e1 = (if c < c1 then Some (c1 - 1) else e)"
      by (auto simp: le_Suc_eq)
    ultimately show ?thesis using ih(1) ih(3) by auto
  next
    case False
    then have "parseAtRule_name tk c e = (e, c)"
      by (subst parseAtRule_name.simps) (auto simp: currentToken_def)
    with "1.prems" have "e1 = e" "c1 = c" by simp_all
    with False show ?thesis by auto
  qed
qed

text \<open>How the main loop is left without an opening brace.\<close>

lemma parseAtRule_loop_exit:
  "parseAtRule_loop tk c nm nr ps pe = Returns (False, nm1, nr1, ps1, pe1, c1) \<Longrightarrow>
   length (tokens tk) \<le> c1 \<or>
   (0 < c1 \<and> c1 \<le> length (tokens tk) \<and> token_is (tok tk (c1 - 1)) propertyBoundary)"
proof (induction tk c nm nr ps pe rule: parseAtRule_loop.induct)
  case (1 tk c name nameRange parametersStart parametersEnd)
  show ?case
  proof (cases "c < length (tokens tk)")
    case False
    with "1.prems" show ?thesis
      by (subst (asm) parseAtRule_loop.simps) simp
  next
    case inb: True
    then have cur: "currentToken tk c = Some c" by simp
    consider (ws) "token_is (tok tk c) whitespace"
      | (name) "\<not> token_is (tok tk c) whitespace"
          "not_name name \<and> token_is (tok tk c) at"
      | (brace) "\<not> token_is (tok tk c) whitespace"
          "\<not> (not_name name \<and> token_is (tok tk c) at)"
          "token_is (tok tk c) openBrace"
      | (stop) "\<not> token_is (tok tk c) whitespace"
          "\<not> (not_name name \<and> token_is (tok tk c) at)"
          "\<not> token_is (tok tk c) openBrace" "token_is (tok tk c) propertyBoundary"
      | (param) "\<not> token_is (tok tk c) whitespace"
          "\<not> (not_name name \<and> token_is (tok tk c) at)"
          "\<not> token_is (tok tk c) openBrace" "\<not> token_is (tok tk c) propertyBoundary"
      by blast
    then show ?thesis
    proof cases
      case ws
      with inb "1.prems"
      have "parseAtRule_loop tk (Suc c) name nameRange parametersStart parametersEnd
              = Returns (False, nm1, nr1, ps1, pe1, c1)"
        by (subst (asm) parseAtRule_loop.simps) simp
      from "1.IH"(1) [OF cur ws this] show ?thesis .
    next
      case name
      show ?thesis
      proof (cases "Suc c < length (tokens tk)")
        case False
        with name inb "1.prems" show ?thesis
          by (subst (asm) parseAtRule_loop.simps) simp
      next
        case True
        then have cur2: "currentToken tk (Suc c) = Some (Suc c)" by simp
        obtain e c2 where nm: "parseAtRule_name tk (Suc c) None = (e, c2)"
          by (cases "parseAtRule_name tk (Suc c) None")
        define nr' where "nr' = getRange tk (Suc c) e"
        from name inb True nm "1.prems"
        have "parseAtRule_loop tk c2
                (Some (String_slice (cssText tk) (start nr') (endp nr'))) (Some nr')
                parametersStart parametersEnd = Returns (False, nm1, nr1, ps1, pe1, c1)"
          by (subst (asm) parseAtRule_loop.simps) (simp add: nr'_def Let_def)
        from "1.IH"(2) [OF cur name(1) name(2) cur2 nm [symmetric] refl nr'_def this]
        show ?thesis .
      qed
    next
      case brace
      with inb "1.prems" show ?thesis
        by (subst (asm) parseAtRule_loop.simps) (auto split: if_splits)
    next
      case stop
      with inb "1.prems" have "c1 = Suc c"
        by (subst (asm) parseAtRule_loop.simps) (auto split: if_splits)
      with stop inb show ?thesis by simp
    next
      case param
      show ?thesis
      proof (cases "parametersStart = None")
        case True
        with param inb "1.prems"
        have "parseAtRule_loop tk (Suc c) name nameRange (Some c) parametersEnd
                = Returns (False, nm1, nr1, ps1, pe1, c1)"
          by (subst (asm) parseAtRule_loop.simps) (simp cong: conj_cong)
        from "1.IH"(3) [OF cur param True this] show ?thesis .
      next
        case False
        with param inb "1.prems"
        have "parseAtRule_loop tk (Suc c) name nameRange parametersStart (Some c)
                = Returns (False, nm1, nr1, ps1, pe1, c1)"
          by (subst (asm) parseAtRule_loop.simps) (simp cong: conj_cong)
        from "1.IH"(4) [OF cur param False this] show ?thesis .
      qed
    qed
  qed
qed


text \<open>
  At an \<open>@\<close> that is followed by a word token, with no name yet, the loop takes as the
  name the text from the start of that word to the end of the last of the word tokens
  that follow one another (\<open>e\<close>), and goes on after it.
\<close>

lemma parseAtRule_loop_name:
  assumes inb: "c < length (tokens tk)" and at: "token_is (tok tk c) at"
    and nn: "not_name name"
    and inb2: "Suc c < length (tokens tk)" and w: "token_is (tok tk (Suc c)) word"
  shows "\<exists>e. parseAtRule_name tk (Suc c) None = (Some e, Suc e)
       \<and> Suc c \<le> e
       \<and> (\<forall>i. Suc c \<le> i \<and> i \<le> e \<longrightarrow> token_is (tok tk i) word)
       \<and> (Suc e < length (tokens tk) \<longrightarrow> \<not> token_is (tok tk (Suc e)) word)
       \<and> parseAtRule_loop tk c name nameRange ps pe =
           parseAtRule_loop tk (Suc e)
             (Some (String_slice (cssText tk) (start (tok tk (Suc c))) (endp (tok tk e))))
             (Some \<lparr>start = start (tok tk (Suc c)), endp = endp (tok tk e)\<rparr>) ps pe"
proof -
  from at have nws: "\<not> token_is (tok tk c) whitespace"
    by (auto simp: token_is_def)
  obtain e1 c2 where nm: "parseAtRule_name tk (Suc c) None = (e1, c2)"
    by (cases "parseAtRule_name tk (Suc c) None")
  from parseAtRule_name_words [OF nm]
  have wd: "Suc c \<le> c2" "\<forall>i. Suc c \<le> i \<and> i < c2 \<longrightarrow> token_is (tok tk i) word"
    "c2 < length (tokens tk) \<longrightarrow> \<not> token_is (tok tk c2) word"
    "e1 = (if Suc c < c2 then Some (c2 - 1) else None)"
    by simp_all
  from wd(1) wd(3) inb2 w have gt: "Suc c < c2"
    by (cases "c2 = Suc c") auto
  define e where "e = c2 - 1"
  from gt have c2: "c2 = Suc e" and e: "Suc c \<le> e"
    by (simp_all add: e_def)
  from wd(4) gt have e1: "e1 = Some e"
    by (simp add: e_def)
  have loop: "parseAtRule_loop tk c name nameRange ps pe =
      parseAtRule_loop tk (Suc e)
        (Some (String_slice (cssText tk) (start (tok tk (Suc c))) (endp (tok tk e))))
        (Some \<lparr>start = start (tok tk (Suc c)), endp = endp (tok tk e)\<rparr>) ps pe"
    using inb inb2 at nn nws nm e1 c2
    by (subst parseAtRule_loop.simps) (simp add: Let_def getRange_def)
  from wd(2) c2 have "\<forall>i. Suc c \<le> i \<and> i \<le> e \<longrightarrow> token_is (tok tk i) word"
    by simp
  with nm e1 c2 e wd(3) loop show ?thesis
    by (intro exI [of _ e]) simp
qed

text \<open>
  At a token of the property-boundary class the loop consumes the token and is left,
  without a rule list.
\<close>

lemma parseAtRule_loop_propertyBoundary:
  assumes "c < length (tokens tk)" and "token_is (tok tk c) propertyBoundary"
  shows "parseAtRule_loop tk c name nameRange ps pe
      = Returns (False, name, nameRange, ps, pe, Suc c)"
  using assms propertyBoundary_token_is [of "tok tk c"]
  by (subst parseAtRule_loop.simps) simp

text \<open>
  Once the name is there, the loop keeps it, takes the first parameter token as
  \<open>parametersStart\<close> and the last of the later ones as \<open>parametersEnd\<close>.
\<close>

lemma parseAtRule_loop_parameters:
  "\<not> not_name name \<Longrightarrow>
   parseAtRule_loop tk c name nr ps pe = Returns (b, nm1, nr1, ps1, pe1, c1) \<Longrightarrow>
   nm1 = name \<and> nr1 = nr
   \<and> ps1 = (if ps \<noteq> None then ps
            else if parameterTokens tk c = [] then None
            else Some (hd (parameterTokens tk c)))
   \<and> pe1 = (if ps \<noteq> None
            then (if parameterTokens tk c = [] then pe else Some (last (parameterTokens tk c)))
            else (if tl (parameterTokens tk c) = [] then pe
                  else Some (last (parameterTokens tk c))))"
proof (induction tk c name nr ps pe rule: parseAtRule_loop.induct)
  case (1 tk c name nameRange parametersStart parametersEnd)
  note nn = "1.prems"(1) and res = "1.prems"(2)
  show ?case
  proof (cases "c < length (tokens tk)")
    case False
    then have "parameterTokens tk c = []"
      by (subst parameterTokens.simps) simp
    with False res show ?thesis
      by (subst (asm) parseAtRule_loop.simps) auto
  next
    case inb: True
    then have cur: "currentToken tk c = Some c" by simp
    from nn have nname: "\<not> (not_name name \<and> token_is (tok tk c) at)" by simp
    consider (ws) "token_is (tok tk c) whitespace"
      | (stop) "\<not> token_is (tok tk c) whitespace"
          "token_is (tok tk c) openBrace \<or> token_is (tok tk c) propertyBoundary"
      | (param) "\<not> token_is (tok tk c) whitespace"
          "\<not> token_is (tok tk c) openBrace" "\<not> token_is (tok tk c) propertyBoundary"
      by blast
    then show ?thesis
    proof cases
      case ws
      with inb have pt: "parameterTokens tk c = parameterTokens tk (Suc c)"
        by (subst parameterTokens.simps) simp
      from ws inb res
      have "parseAtRule_loop tk (Suc c) name nameRange parametersStart parametersEnd
              = Returns (b, nm1, nr1, ps1, pe1, c1)"
        by (subst (asm) parseAtRule_loop.simps) simp
      from "1.IH"(1) [OF cur ws nn this] pt show ?thesis by simp
    next
      case stop
      with inb have pt: "parameterTokens tk c = []"
        by (subst parameterTokens.simps) auto
      from stop inb nn res pt show ?thesis
        by (subst (asm) parseAtRule_loop.simps) (auto split: if_splits)
    next
      case param
      with inb have pt: "parameterTokens tk c = c # parameterTokens tk (Suc c)"
        by (subst parameterTokens.simps) simp
      show ?thesis
      proof (cases "parametersStart = None")
        case True
        with param inb nn res
        have "parseAtRule_loop tk (Suc c) name nameRange (Some c) parametersEnd
                = Returns (b, nm1, nr1, ps1, pe1, c1)"
          by (subst (asm) parseAtRule_loop.simps) simp
        from "1.IH"(3) [OF cur param(1) nname param(2) param(3) True nn this] pt True
        show ?thesis by simp
      next
        case False
        with param inb nn res
        have "parseAtRule_loop tk (Suc c) name nameRange parametersStart (Some c)
                = Returns (b, nm1, nr1, ps1, pe1, c1)"
          by (subst (asm) parseAtRule_loop.simps) simp
        from "1.IH"(4) [OF cur param(1) nname param(2) param(3) False nn this] pt False
        show ?thesis by simp
      qed
    qed
  qed
qed

text \<open>
  When the loop is left without a rule list and with a name, parseAtRule returns an
  AtRule without rule list, whose parameters are the text of the trimmed parameter range
  (empty, and without range, when there was no parameter token).
\<close>

lemma parseAtRule_without_rulelist:
  assumes inb: "c < length (tokens tk)"
    and lp: "parseAtRule_loop tk c None None None None
             = Returns (False, Some nm, Some nr, ps1, pe1, c1)"
  shows "parseAtRule n tk c =
          Returns (Some (AtRule nm
             (case ps1 of
                None \<Rightarrow> []
              | Some p \<Rightarrow>
                  String_slice (cssText tk)
                    (start (trimRange tk (getRange tk p pe1)))
                    (endp (trimRange tk (getRange tk p pe1))))
             None nr
             (case ps1 of
                None \<Rightarrow> None
              | Some p \<Rightarrow> Some (trimRange tk (getRange tk p pe1)))
             \<lparr>start = start (tok tk c),
              endp = (if c1 < length (tokens tk) then endp (tok tk (c1 - 1))
                      else length (cssText tk))\<rparr>), c1)"
proof -
  from parseAtRule_loop_exit [OF lp]
  have prev: "previous tk c1 = Some (c1 - 1)" if "c1 < length (tokens tk)"
    using that by (auto simp: previous_def)
  from lp inb
  have "parseAtRule n tk c = parseAtRule_node tk (start (tok tk c)) (Some nm) (Some nr) None ps1 pe1 c1"
    by (subst parseAtRule.simps) simp
  with prev show ?thesis
    by (auto simp: parseAtRule_node_def Let_def currentToken_def split: option.splits)
qed

text \<open>
  The examples of the specification: \<open>@import "x.css";\<close> gives one AtRule with the
  name \<open>import\<close>, the parameters \<open>"x.css"\<close> and no rule list, and
  \<open>@media (min-width: 1px) { .a {} }\<close> one with the name \<open>media\<close>, the parameters
  \<open>(min-width: 1px)\<close> and a rule list with one Ruleset.
\<close>

lemma import_example_parses:
  "parse import_example =
        Returns (Stylesheet
          [AtRule ''import'' import_parameters None
             \<lparr>start = 1, endp = 7\<rparr> (Some \<lparr>start = 8, endp = 15\<rparr>) \<lparr>start = 0, endp = 16\<rparr>]
          \<lparr>start = 0, endp = 16\<rparr>)"
  by code_simp

lemma media_example_parses:
  "parse ''@media (min-width: 1px) { .a {} }'' =
        Returns (Stylesheet
          [AtRule ''media'' ''(min-width: 1px)''
             (Some (Rulelist
                [Ruleset ''.a'' (Rulelist [] \<lparr>start = 29, endp = 31\<rparr>)
                   \<lparr>start = 26, endp = 28\<rparr> \<lparr>start = 26, endp = 31\<rparr>]
                \<lparr>start = 24, endp = 33\<rparr>))
             \<lparr>start = 1, endp = 6\<rparr> (Some \<lparr>start = 7, endp = 23\<rparr>) \<lparr>start = 0, endp = 33\<rparr>]
          \<lparr>start = 0, endp = 33\<rparr>)"
  by code_simp

text \<open>
  C8 fails on the code where no word token follows the \<open>@\<close>.  The loop over the name
  (lines 166 to 169) consumes word tokens only, but line 170 takes the name range from
  the token after the \<open>@\<close>, whatever its kind.  In \<open>at_braces\<close>, an \<open>@\<close> followed
  by \<open>{}\<close>, the at-rule gets the name \<open>{\<close>, the text of the brace that then opens
  its rule list, and in \<open>@;\<close> the name \<open>;\<close>, where the claim forms the name from the
  word tokens after the \<open>@\<close>, of which there are none.  In \<open>@\<close> the end of the input
  is reached and no name is captured; line 170 hands the \<open>null\<close> current token to
  getRange, which throws, where the claim has parseAtRule return \<open>null\<close> (the test of
  line 187 is never reached).
\<close>

theorem parseAtRule_name_of_non_word_token:
  "parse at_braces =
     Returns (Stylesheet
       [AtRule ''{'' [] (Some (Rulelist [] \<lparr>start = 1, endp = 3\<rparr>))
          \<lparr>start = 1, endp = 2\<rparr> None \<lparr>start = 0, endp = 3\<rparr>]
       \<lparr>start = 0, endp = 3\<rparr>)
   \<and> parse ''@;'' =
     Returns (Stylesheet
       [AtRule '';'' [] None \<lparr>start = 1, endp = 2\<rparr> None \<lparr>start = 0, endp = 2\<rparr>]
       \<lparr>start = 0, endp = 2\<rparr>)
   \<and> parseAtRule 1 (new_Tokenizer ''@'') 0 = Throws TypeError
   \<and> parse ''@'' = Throws TypeError"
  by code_simp

end
